theory Spec2Isabelle
  imports Main "HOL-Library.Word"
begin

section \<open>Python values\<close>

text \<open>
  A Python \<open>str\<close> is a sequence of Unicode code points; it is modelled as the list of
  their numbers. ASCII literals of the source are written through \<open>ascii\<close>; the
  sentinel tag of \<open>main.py\<close> is given by its four code points.
\<close>

type_synonym pystr = "nat list"

definition ascii :: "string \<Rightarrow> pystr" where
  "ascii s = map of_char s"

definition SENTINEL :: pystr where
  \<comment> \<open>the literal of \<open>main.py\<close> lines 183, 187 and 258: U+4FE1 U+606F U+4E0D U+8DB3\<close>
  "SENTINEL = [0x4FE1, 0x606F, 0x4E0D, 0x8DB3]"

definition startswith :: "pystr \<Rightarrow> pystr \<Rightarrow> bool" where
  \<comment> \<open>\<open>s.startswith(p)\<close>\<close>
  "startswith p s = (take (length p) s = p)"

fun str_contains :: "pystr \<Rightarrow> pystr \<Rightarrow> bool" where
  \<comment> \<open>\<open>p in s\<close> on two strings: \<open>p\<close> occurs at some position of \<open>s\<close>\<close>
  "str_contains p [] = startswith p []"
| "str_contains p (c # s) = (startswith p (c # s) \<or> str_contains p s)"

definition py_isspace :: "nat \<Rightarrow> bool" where
  \<comment> \<open>the code points \<open>str.strip()\<close> removes (those with \<open>str.isspace()\<close>)\<close>
  "py_isspace c =
     ((0x09 \<le> c \<and> c \<le> 0x0D) \<or> (0x1C \<le> c \<and> c \<le> 0x20) \<or> c = 0x85 \<or> c = 0xA0 \<or>
      c = 0x1680 \<or> (0x2000 \<le> c \<and> c \<le> 0x200A) \<or> c = 0x2028 \<or> c = 0x2029 \<or>
      c = 0x202F \<or> c = 0x205F \<or> c = 0x3000)"

definition strip :: "pystr \<Rightarrow> pystr" where
  \<comment> \<open>\<open>s.strip()\<close>\<close>
  "strip s = rev (dropWhile py_isspace (rev (dropWhile py_isspace s)))"

section \<open>The extractor\<close>

text \<open>
  \<open>extract_apps_from_db\<close> (\<open>main.py\<close> lines 16 to 68). The data source is what the
  function can observe of it: the file is missing, a database call fails, or the query
  \<open>SELECT title, intent FROM favorites\<close> returns rows. Both columns are declared
  \<open>TEXT\<close>; a field is a string or \<open>None\<close> (SQL \<open>NULL\<close>).
\<close>

type_synonym row = "pystr option \<times> pystr option"

datatype db_source = DbMissing | DbFails pystr | DbRows "row list"

datatype pyexc =
    FileNotFoundError
  | Sqlite3Error pystr
  | ValueError
  | TypeError
  | IndexError
  | UnicodeDecodeError
  | UnicodeEncodeError
  | KeyError

record app =
  name :: "pystr option"
  package :: pystr

definition MARKER :: pystr where
  "MARKER = ascii ''component=''"

definition SLASH :: nat where
  "SLASH = of_char CHR ''/''"

text \<open>
  The pattern \<open>component=([^/]+)/\<close> at one position. After the literal, the group is
  greedy: it first takes the whole run of characters other than \<open>/\<close>, and gives
  characters back one at a time (never fewer than one) until a \<open>/\<close> follows.
  \<open>group_lengths\<close> lists the lengths the matcher tries, in its order.
\<close>

definition group_lengths :: "pystr \<Rightarrow> nat list" where
  "group_lengths rest = rev [1 ..< Suc (length (takeWhile (\<lambda>c. c \<noteq> SLASH) rest))]"

definition match_at :: "pystr \<Rightarrow> pystr option" where
  "match_at s =
     (if startswith MARKER s then
        (let rest = drop (length MARKER) s in
         case List.find (\<lambda>k. k < length rest \<and> rest ! k = SLASH) (group_lengths rest) of
           None \<Rightarrow> None
         | Some k \<Rightarrow> Some (take k rest))
      else None)"

fun pattern_search :: "pystr \<Rightarrow> pystr option" where
  \<comment> \<open>\<open>pattern.search(s)\<close> followed by \<open>match.group(1)\<close>: the leftmost position that matches\<close>
  "pattern_search [] = match_at []"
| "pattern_search (c # s) =
     (case match_at (c # s) of Some g \<Rightarrow> Some g | None \<Rightarrow> pattern_search s)"

fun extract_rows :: "row list \<Rightarrow> app list \<Rightarrow> app list" where
  \<comment> \<open>the loop of lines 44 to 57, with the list \<open>apps\<close> it appends to\<close>
  "extract_rows [] apps = apps"
| "extract_rows ((app_name, None) # rows) apps = extract_rows rows apps"
| "extract_rows ((app_name, Some intent_str) # rows) apps =
     (if intent_str = [] \<or> \<not> str_contains MARKER intent_str then extract_rows rows apps
      else (case pattern_search intent_str of
              Some package_name \<Rightarrow>
                extract_rows rows (apps @ [\<lparr>name = app_name, package = package_name\<rparr>])
            | None \<Rightarrow> extract_rows rows apps))"

definition extract_apps_from_db :: "db_source \<Rightarrow> pyexc + app list" where
  "extract_apps_from_db src =
     (case src of
        DbMissing \<Rightarrow> Inl FileNotFoundError
      | DbFails msg \<Rightarrow> Inl (Sqlite3Error msg)
      | DbRows rows \<Rightarrow> Inr (extract_rows rows []))"

text \<open>
  \<open>extract_package_info\<close> of \<open>extract_launcher_data.py\<close> (lines 66 to 114) runs the same
  query and the same pattern, tests only \<open>not intent_str\<close>, and prints one line
  \<open>package,title\<close> for each match instead of returning a list.
\<close>

datatype out_line =
    Line_missing  \<comment> \<open>line 71\<close>
  | Line_header  \<comment> \<open>line 89\<close>
  | Line_rule  \<comment> \<open>line 90\<close>
  | Line_pair pystr "pystr option"  \<comment> \<open>line 106\<close>
  | Line_db_error pystr  \<comment> \<open>line 110\<close>

fun printed_rows :: "row list \<Rightarrow> out_line list" where
  \<comment> \<open>the loop of lines 92 to 106\<close>
  "printed_rows [] = []"
| "printed_rows ((app_name, None) # rows) = printed_rows rows"
| "printed_rows ((app_name, Some intent_str) # rows) =
     (if intent_str = [] then printed_rows rows
      else (case pattern_search intent_str of
              Some package_name \<Rightarrow> Line_pair package_name app_name # printed_rows rows
            | None \<Rightarrow> printed_rows rows))"

definition extract_package_info :: "db_source \<Rightarrow> out_line list" where
  "extract_package_info src =
     (case src of
        DbMissing \<Rightarrow> [Line_missing]
      | DbFails msg \<Rightarrow> [Line_db_error msg]
      | DbRows rows \<Rightarrow> Line_header # Line_rule # printed_rows rows)"

definition has_marker :: "row \<Rightarrow> bool" where
  \<comment> \<open>the rows that pass the test of \<open>main.py\<close> line 48\<close>
  "has_marker r = (case snd r of None \<Rightarrow> False | Some s \<Rightarrow> s \<noteq> [] \<and> str_contains MARKER s)"

section \<open>JSON, as the cache file uses it\<close>

text \<open>
  What \<open>json.loads\<close> can return. A \<open>dict\<close> keeps its keys in insertion order, so an
  object is a list of pairs with distinct keys. A float is kept as the numeral it was
  read from (floating point is outside this model); no tag is a number.
\<close>

datatype jsonval =
    JNull
  | JBool bool
  | JInt int
  | JFloat pystr
  | JStr pystr
  | JArr "jsonval list"
  | JObj "(pystr \<times> jsonval) list"

fun dict_set :: "('k \<times> 'v) list \<Rightarrow> 'k \<Rightarrow> 'v \<Rightarrow> ('k \<times> 'v) list" where
  \<comment> \<open>\<open>d[k] = v\<close>: an old key keeps its place, a new key goes last\<close>
  "dict_set [] k v = [(k, v)]"
| "dict_set ((k', v') # d) k v =
     (if k' = k then (k, v) # d else (k', v') # dict_set d k v)"

definition dict_of_pairs :: "('k \<times> 'v) list \<Rightarrow> ('k \<times> 'v) list" where
  \<comment> \<open>\<open>dict(pairs)\<close>\<close>
  "dict_of_pairs ps = foldl (\<lambda>d (k, v). dict_set d k v) [] ps"

definition QUOTE :: nat where "QUOTE = 0x22"
definition BACKSLASH :: nat where "BACKSLASH = 0x5C"

subsection \<open>\<open>json.dump(obj, f, indent=4, ensure_ascii=False)\<close>\<close>

definition hexdigit :: "nat \<Rightarrow> nat" where
  "hexdigit d = (if d < 10 then 0x30 + d else 0x57 + d)"

definition escape_char :: "nat \<Rightarrow> pystr" where
  \<comment> \<open>the table \<open>ESCAPE_DCT\<close> of the encoder: quote, backslash and the controls\<close>
  "escape_char c =
     (if c = QUOTE then [BACKSLASH, QUOTE]
      else if c = BACKSLASH then [BACKSLASH, BACKSLASH]
      else if c = 0x08 then [BACKSLASH, 0x62]
      else if c = 0x0C then [BACKSLASH, 0x66]
      else if c = 0x0A then [BACKSLASH, 0x6E]
      else if c = 0x0D then [BACKSLASH, 0x72]
      else if c = 0x09 then [BACKSLASH, 0x74]
      else if c < 0x20 then [BACKSLASH, 0x75, 0x30, 0x30, hexdigit (c div 16), hexdigit (c mod 16)]
      else [c])"

definition encode_basestring :: "pystr \<Rightarrow> pystr" where
  "encode_basestring s = QUOTE # concat (map escape_char s) @ [QUOTE]"

function digits_of :: "nat \<Rightarrow> pystr" where
  "digits_of n = (if n < 10 then [0x30 + n] else digits_of (n div 10) @ [0x30 + n mod 10])"
  by pat_completeness auto
termination
  by (relation "measure id") auto

definition int_repr :: "int \<Rightarrow> pystr" where
  "int_repr i = (if i < 0 then 0x2D # digits_of (nat (- i)) else digits_of (nat i))"

definition newline_indent :: "nat \<Rightarrow> pystr" where
  \<comment> \<open>\<open>'\n' + ' ' * 4 * level\<close>\<close>
  "newline_indent level = 0x0A # replicate (4 * level) 0x20"

fun join :: "pystr \<Rightarrow> pystr list \<Rightarrow> pystr" where
  "join sep [] = []"
| "join sep [x] = x"
| "join sep (x # y # ys) = x @ sep @ join sep (y # ys)"

fun json_encode :: "nat \<Rightarrow> jsonval \<Rightarrow> pystr" where
  "json_encode level JNull = ascii ''null''"
| "json_encode level (JBool b) = (if b then ascii ''true'' else ascii ''false'')"
| "json_encode level (JInt i) = int_repr i"
| "json_encode level (JFloat t) = t"
| "json_encode level (JStr s) = encode_basestring s"
| "json_encode level (JArr xs) =
     (if xs = [] then ascii ''[]''
      else ascii ''['' @ newline_indent (Suc level) @
           join (0x2C # newline_indent (Suc level)) (map (json_encode (Suc level)) xs) @
           newline_indent level @ ascii '']'')"
| "json_encode level (JObj kvs) =
     (if kvs = [] then ascii ''{}''
      else ascii ''{'' @ newline_indent (Suc level) @
           join (0x2C # newline_indent (Suc level))
             (map (\<lambda>kv. encode_basestring (fst kv) @ ascii '': '' @ json_encode (Suc level) (snd kv)) kvs) @
           newline_indent level @ ascii ''}'')"

definition json_dumps :: "jsonval \<Rightarrow> pystr" where
  "json_dumps v = json_encode 0 v"

subsection \<open>\<open>json.loads(content)\<close>\<close>

text \<open>
  The decoder reads a prefix of its input and returns the rest. Every way it can
  reject the text is a \<open>JSONDecodeError\<close>, the value \<open>None\<close> here. The nesting of
  arrays and objects is bounded by the fuel, which \<open>json_loads\<close> sets to the length of
  the text: a text cannot nest deeper than it is long.
\<close>

definition is_ws :: "nat \<Rightarrow> bool" where
  \<comment> \<open>\<open>WHITESPACE\<close> of the decoder: space, tab, line feed, carriage return\<close>
  "is_ws c = (c = 0x20 \<or> c = 0x09 \<or> c = 0x0A \<or> c = 0x0D)"

definition skip_ws :: "pystr \<Rightarrow> pystr" where
  "skip_ws s = dropWhile is_ws s"

definition is_digit :: "nat \<Rightarrow> bool" where
  "is_digit c = (0x30 \<le> c \<and> c \<le> 0x39)"

definition hexval :: "nat \<Rightarrow> nat option" where
  "hexval c =
     (if 0x30 \<le> c \<and> c \<le> 0x39 then Some (c - 0x30)
      else if 0x61 \<le> c \<and> c \<le> 0x66 then Some (c - 0x57)
      else if 0x41 \<le> c \<and> c \<le> 0x46 then Some (c - 0x37)
      else None)"

definition hex4 :: "pystr \<Rightarrow> nat option" where
  \<comment> \<open>the four hexadecimal digits of a \<open>\uXXXX\<close> escape\<close>
  "hex4 s =
     (case s of
        a # b # c # d # _ \<Rightarrow>
          (case (hexval a, hexval b, hexval c, hexval d) of
             (Some x, Some y, Some z, Some w) \<Rightarrow> Some (((x * 16 + y) * 16 + z) * 16 + w)
           | _ \<Rightarrow> None)
      | _ \<Rightarrow> None)"

definition unescape :: "nat \<Rightarrow> nat option" where
  \<comment> \<open>the table \<open>BACKSLASH\<close> of the decoder\<close>
  "unescape e =
     (if e = QUOTE then Some QUOTE
      else if e = BACKSLASH then Some BACKSLASH
      else if e = 0x2F then Some 0x2F
      else if e = 0x62 then Some 0x08
      else if e = 0x66 then Some 0x0C
      else if e = 0x6E then Some 0x0A
      else if e = 0x72 then Some 0x0D
      else if e = 0x74 then Some 0x09
      else None)"

function scanstring :: "pystr \<Rightarrow> pystr \<Rightarrow> (pystr \<times> pystr) option" where
  \<comment> \<open>the text after an opening quote, and the characters read so far (strict mode)\<close>
  "scanstring [] acc = None"
| "scanstring (c # s) acc =
     (if c = QUOTE then Some (acc, s)
      else if c = BACKSLASH then
        (case s of
           [] \<Rightarrow> None
         | e # s' \<Rightarrow>
             if e = 0x75 then
               (case hex4 s' of
                  None \<Rightarrow> None
                | Some uni \<Rightarrow>
                    if 0xD800 \<le> uni \<and> uni \<le> 0xDBFF \<and> take 2 (drop 4 s') = [BACKSLASH, 0x75] then
                      (case hex4 (drop 6 s') of
                         None \<Rightarrow> None
                       | Some uni2 \<Rightarrow>
                           if 0xDC00 \<le> uni2 \<and> uni2 \<le> 0xDFFF then
                             scanstring (drop 10 s')
                               (acc @ [0x10000 + (uni - 0xD800) * 1024 + (uni2 - 0xDC00)])
                           else scanstring (drop 4 s') (acc @ [uni]))
                    else scanstring (drop 4 s') (acc @ [uni]))
             else
               (case unescape e of
                  None \<Rightarrow> None
                | Some ch \<Rightarrow> scanstring s' (acc @ [ch])))
      else if c < 0x20 then None
      else scanstring s (acc @ [c]))"
  by pat_completeness auto
termination
  by (relation "measure (\<lambda>(s, acc). length s)") auto

fun digits_val :: "pystr \<Rightarrow> nat \<Rightarrow> nat" where
  "digits_val [] n = n"
| "digits_val (d # ds) n = digits_val ds (10 * n + (d - 0x30))"

definition scan_number :: "pystr \<Rightarrow> (jsonval \<times> pystr) option" where
  \<comment> \<open>\<open>NUMBER_RE\<close>: \<open>(-?(?:0|[1-9][0-9]*))(\.[0-9]+)?([eE][-+]?[0-9]+)?\<close>\<close>
  "scan_number s =
     (let sign = (if take 1 s = [0x2D] then [0x2D] else []);
          s1 = drop (length sign) s;
          ipart = (if take 1 s1 = [0x30] then [0x30] else takeWhile is_digit s1);
          s2 = drop (length ipart) s1;
          frac = (if take 1 s2 = [0x2E] \<and> takeWhile is_digit (drop 1 s2) \<noteq> []
                  then 0x2E # takeWhile is_digit (drop 1 s2) else []);
          s3 = drop (length frac) s2;
          esign = (if take 1 s3 = [0x65] \<or> take 1 s3 = [0x45] then
                     (if take 1 (drop 1 s3) = [0x2D] \<or> take 1 (drop 1 s3) = [0x2B]
                      then take 2 s3 else take 1 s3)
                   else []);
          edigits = takeWhile is_digit (drop (length esign) s3);
          expo = (if esign \<noteq> [] \<and> edigits \<noteq> [] then esign @ edigits else []);
          s4 = drop (length expo) s3
      in if ipart = [] then None
         else if frac = [] \<and> expo = [] then
           Some (JInt ((if sign = [] then 1 else - 1) * int (digits_val ipart 0)), s2)
         else Some (JFloat (sign @ ipart @ frac @ expo), s4))"

fun scan_once :: "nat \<Rightarrow> pystr \<Rightarrow> (jsonval \<times> pystr) option"
  and scan_array :: "nat \<Rightarrow> pystr \<Rightarrow> jsonval list \<Rightarrow> (jsonval \<times> pystr) option"
  and scan_object :: "nat \<Rightarrow> pystr \<Rightarrow> (pystr \<times> jsonval) list \<Rightarrow> (jsonval \<times> pystr) option"
where
  "scan_once 0 s = None"
| "scan_once (Suc fuel) [] = None"
| "scan_once (Suc fuel) (c # s) =
     (if c = QUOTE then
        (case scanstring s [] of None \<Rightarrow> None | Some (str, rest) \<Rightarrow> Some (JStr str, rest))
      else if c = 0x7B then
        (let s1 = skip_ws s in
         if take 1 s1 = [0x7D] then Some (JObj [], drop 1 s1)
         else scan_object fuel s1 [])
      else if c = 0x5B then
        (let s1 = skip_ws s in
         if take 1 s1 = [0x5D] then Some (JArr [], drop 1 s1)
         else scan_array fuel s1 [])
      else if startswith (ascii ''null'') (c # s) then Some (JNull, drop 3 s)
      else if startswith (ascii ''true'') (c # s) then Some (JBool True, drop 3 s)
      else if startswith (ascii ''false'') (c # s) then Some (JBool False, drop 4 s)
      else
        (case scan_number (c # s) of
           Some r \<Rightarrow> Some r
         | None \<Rightarrow>
             if startswith (ascii ''NaN'') (c # s) then Some (JFloat (ascii ''NaN''), drop 2 s)
             else if startswith (ascii ''Infinity'') (c # s) then
               Some (JFloat (ascii ''Infinity''), drop 7 s)
             else if startswith (ascii ''-Infinity'') (c # s) then
               Some (JFloat (ascii ''-Infinity''), drop 8 s)
             else None))"
| "scan_array 0 s vs = None"
| "scan_array (Suc fuel) s vs =
     (case scan_once fuel s of
        None \<Rightarrow> None
      | Some (v, rest) \<Rightarrow>
          (let s1 = skip_ws rest in
           if take 1 s1 = [0x5D] then Some (JArr (vs @ [v]), drop 1 s1)
           else if take 1 s1 = [0x2C] then scan_array fuel (skip_ws (drop 1 s1)) (vs @ [v])
           else None))"
| "scan_object 0 s ps = None"
| "scan_object (Suc fuel) s ps =
     (if take 1 s \<noteq> [QUOTE] then None
      else
        (case scanstring (drop 1 s) [] of
           None \<Rightarrow> None
         | Some (key, rest) \<Rightarrow>
             (let s1 = skip_ws rest in
              if take 1 s1 \<noteq> [0x3A] then None
              else
                (case scan_once fuel (skip_ws (drop 1 s1)) of
                   None \<Rightarrow> None
                 | Some (v, rest') \<Rightarrow>
                     (let s2 = skip_ws rest' in
                      if take 1 s2 = [0x7D] then Some (JObj (dict_of_pairs (ps @ [(key, v)])), drop 1 s2)
                      else if take 1 s2 = [0x2C] then
                        scan_object fuel (skip_ws (drop 1 s2)) (ps @ [(key, v)])
                      else None)))))"

definition json_loads :: "pystr \<Rightarrow> jsonval option" where
  \<comment> \<open>\<open>None\<close> is \<open>JSONDecodeError\<close>: a byte order mark, no value, or text after the value\<close>
  "json_loads s =
     (if take 1 s = [0xFEFF] then None
      else
        (case scan_once (Suc (length s)) (skip_ws s) of
           None \<Rightarrow> None
         | Some (v, rest) \<Rightarrow> if skip_ws rest = [] then Some v else None))"

definition tag_cache :: "(pystr \<times> pystr) list \<Rightarrow> jsonval" where
  \<comment> \<open>a mapping from package identifiers to tag strings, as \<open>main\<close> holds it\<close>
  "tag_cache d = JObj (map (\<lambda>kt. (fst kt, JStr (snd kt))) d)"

definition item_text :: "pystr \<times> pystr \<Rightarrow> pystr" where
  \<comment> \<open>one line of the file: the encoded key, the key separator and the encoded tag\<close>
  "item_text kt = encode_basestring (fst kt) @ ascii '': '' @ encode_basestring (snd kt)"

section \<open>The cache file\<close>

text \<open>
  \<open>open(CACHE_FILE, 'r', encoding='utf-8')\<close> and \<open>f.read()\<close>: the bytes of the file are
  decoded as strict UTF-8 (no overlong form, no surrogate, nothing above U+10FFFF), and
  the text layer turns \<open>\r\n\<close> and \<open>\r\<close> into \<open>\n\<close>. Writing goes the other way; the
  line separator of the platform is taken to be \<open>\n\<close>.
\<close>

type_synonym byte = "8 word"

definition is_cont :: "nat \<Rightarrow> bool" where
  "is_cont b = (0x80 \<le> b \<and> b < 0xC0)"

fun utf8_decode :: "nat list \<Rightarrow> pystr option" where
  "utf8_decode [] = Some []"
| "utf8_decode (b # bs) =
     (if b < 0x80 then map_option ((#) b) (utf8_decode bs)
      else if 0xC0 \<le> b \<and> b < 0xE0 then
        (case bs of
           c1 # r \<Rightarrow>
             (let cp = (b - 0xC0) * 64 + (c1 - 0x80) in
              if is_cont c1 \<and> 0x80 \<le> cp then map_option ((#) cp) (utf8_decode r) else None)
         | _ \<Rightarrow> None)
      else if 0xE0 \<le> b \<and> b < 0xF0 then
        (case bs of
           c1 # c2 # r \<Rightarrow>
             (let cp = ((b - 0xE0) * 64 + (c1 - 0x80)) * 64 + (c2 - 0x80) in
              if is_cont c1 \<and> is_cont c2 \<and> 0x800 \<le> cp \<and> \<not> (0xD800 \<le> cp \<and> cp \<le> 0xDFFF)
              then map_option ((#) cp) (utf8_decode r) else None)
         | _ \<Rightarrow> None)
      else if 0xF0 \<le> b \<and> b < 0xF8 then
        (case bs of
           c1 # c2 # c3 # r \<Rightarrow>
             (let cp = (((b - 0xF0) * 64 + (c1 - 0x80)) * 64 + (c2 - 0x80)) * 64 + (c3 - 0x80) in
              if is_cont c1 \<and> is_cont c2 \<and> is_cont c3 \<and> 0x10000 \<le> cp \<and> cp \<le> 0x10FFFF
              then map_option ((#) cp) (utf8_decode r) else None)
         | _ \<Rightarrow> None)
      else None)"

definition utf8_encode_char :: "nat \<Rightarrow> nat list option" where
  "utf8_encode_char cp =
     (if cp < 0x80 then Some [cp]
      else if cp < 0x800 then Some [0xC0 + cp div 64, 0x80 + cp mod 64]
      else if 0xD800 \<le> cp \<and> cp \<le> 0xDFFF then None
      else if cp < 0x10000 then
        Some [0xE0 + cp div 4096, 0x80 + (cp div 64) mod 64, 0x80 + cp mod 64]
      else if cp \<le> 0x10FFFF then
        Some [0xF0 + cp div 262144, 0x80 + (cp div 4096) mod 64, 0x80 + (cp div 64) mod 64,
              0x80 + cp mod 64]
      else None)"

definition is_scalar :: "nat \<Rightarrow> bool" where
  \<comment> \<open>a code point that UTF-8 can encode: no surrogate, nothing above U+10FFFF\<close>
  "is_scalar c = (c < 0xD800 \<or> 0xDFFF < c \<and> c \<le> 0x10FFFF)"

fun utf8_encode :: "pystr \<Rightarrow> nat list option" where
  \<comment> \<open>\<open>None\<close> is \<open>UnicodeEncodeError\<close>\<close>
  "utf8_encode [] = Some []"
| "utf8_encode (c # s) =
     (case utf8_encode_char c of
        None \<Rightarrow> None
      | Some bs \<Rightarrow> map_option ((@) bs) (utf8_encode s))"

fun universal_newlines :: "pystr \<Rightarrow> pystr" where
  "universal_newlines [] = []"
| "universal_newlines [c] = [if c = 0x0D then 0x0A else c]"
| "universal_newlines (c # d # s) =
     (if c = 0x0D \<and> d = 0x0A then 0x0A # universal_newlines s
      else if c = 0x0D then 0x0A # universal_newlines (d # s)
      else c # universal_newlines (d # s))"

datatype file_state =
    FileAbsent  \<comment> \<open>\<open>os.path.exists\<close> is false\<close>
  | FileUnreadable  \<comment> \<open>the file exists; \<open>open\<close> or \<open>read\<close> raises \<open>IOError\<close>\<close>
  | FileBytes "byte list"

datatype write_outcome =
    WriteOk
  | IOErrorOnOpen  \<comment> \<open>\<open>open(CACHE_FILE, 'w')\<close> raises: the file is as it was\<close>
  | IOErrorOnWrite  \<comment> \<open>the file was truncated, then a write raises\<close>

section \<open>The run: remote services, log and state\<close>

text \<open>
  The remote calls, the file system's answer to a write and the clustering library are
  parameters of the run. A remote answer may depend on how many calls came before it.
  The prompt of \<open>get_app_description\<close> is a fixed text around the name and the package,
  so the answer is given as a function of these two. A vector is a list of floats, of a
  type \<open>'f\<close> that is left open.
\<close>

datatype gen_outcome =
    GenRaises  \<comment> \<open>\<open>generate_content\<close> raises an \<open>Exception\<close>\<close>
  | GenResponse "pystr option"  \<comment> \<open>\<open>response.text\<close>, which may be \<open>None\<close>\<close>

datatype 'f emb_outcome =
    EmbRaises  \<comment> \<open>\<open>embed_content(...)['embedding']\<close> raises an \<open>Exception\<close>\<close>
  | EmbReturns "'f list"

datatype group_name = Outliers | Group int

type_synonym groups = "(group_name \<times> pystr option list) list"

datatype logmsg =
    L_setup_ok  \<comment> \<open>line 109\<close>
  | L_exception pyexc  \<comment> \<open>\<open>print(e)\<close>, lines 211 and 219\<close>
  | L_extracted nat  \<comment> \<open>line 59\<close>
  | L_no_apps  \<comment> \<open>line 223\<close>
  | L_start  \<comment> \<open>line 229\<close>
  | L_cache_warning  \<comment> \<open>line 85\<close>
  | L_cache_saved  \<comment> \<open>line 95\<close>
  | L_cache_write_error  \<comment> \<open>line 97\<close>
  | L_app "pystr option" pystr  \<comment> \<open>line 240\<close>
  | L_cache_hit  \<comment> \<open>line 247\<close>
  | L_api_call "pystr option"  \<comment> \<open>line 115\<close>
  | L_llm_error  \<comment> \<open>line 186\<close>
  | L_tags jsonval  \<comment> \<open>line 256\<close>
  | L_skip  \<comment> \<open>line 259\<close>
  | L_embedding jsonval  \<comment> \<open>line 193\<close>
  | L_embed_error  \<comment> \<open>line 201\<close>
  | L_vector_ok  \<comment> \<open>line 269\<close>
  | L_no_vectors  \<comment> \<open>line 272\<close>
  | L_all_done  \<comment> \<open>line 276\<close>
  | L_dbscan  \<comment> \<open>line 283\<close>
  | L_clustered  \<comment> \<open>line 287\<close>
  | L_result groups  \<comment> \<open>line 303\<close>

datatype 'f event =
    Log logmsg
  | Call_generate_content "pystr option" pystr
  | Call_embed_content jsonval
  | Call_write jsonval
  | Call_fit_predict "'f list list"

record 'f env =
  GOOGLE_API_KEY :: "pystr option"
  db :: db_source
  generate_content :: "nat \<Rightarrow> pystr option \<Rightarrow> pystr \<Rightarrow> gen_outcome"
  embed_content :: "nat \<Rightarrow> jsonval \<Rightarrow> 'f emb_outcome"
  cache_write :: "nat \<Rightarrow> write_outcome"
  torn_write :: "nat \<Rightarrow> byte list"
  fit_predict :: "'f list list \<Rightarrow> pyexc + int list"

record tagged_app = app +
  tags :: jsonval

record 'f state =
  cache_file :: file_state
  trace :: "'f event list"
  app_tags_cache :: jsonval
  processed_apps :: "tagged_app list"
  app_vectors :: "'f list list"

definition emit :: "'f event \<Rightarrow> 'f state \<Rightarrow> 'f state" where
  "emit ev st = st\<lparr>trace := trace st @ [ev]\<rparr>"

definition new_events :: "'f state \<Rightarrow> 'f state \<Rightarrow> 'f event list" where
  \<comment> \<open>what a piece of the run added to the log, between the state before and the state after\<close>
  "new_events st st' = drop (length (trace st)) (trace st')"

fun is_generate :: "'f event \<Rightarrow> bool" where
  "is_generate (Call_generate_content n p) = True"
| "is_generate _ = False"

fun is_embed :: "'f event \<Rightarrow> bool" where
  "is_embed (Call_embed_content t) = True"
| "is_embed _ = False"

fun is_write :: "'f event \<Rightarrow> bool" where
  "is_write (Call_write d) = True"
| "is_write _ = False"

fun is_fit_predict :: "'f event \<Rightarrow> bool" where
  "is_fit_predict (Call_fit_predict m) = True"
| "is_fit_predict _ = False"

section \<open>The tag cache\<close>

definition read_text :: "byte list \<Rightarrow> pystr option" where
  \<comment> \<open>\<open>f.read()\<close>; \<open>None\<close> is \<open>UnicodeDecodeError\<close>\<close>
  "read_text bs = map_option universal_newlines (utf8_decode (map unat bs))"

definition load_cache :: "'f state \<Rightarrow> (pyexc + jsonval) \<times> 'f state" where
  \<comment> \<open>lines 71 to 86; only \<open>IOError\<close> and \<open>JSONDecodeError\<close> are caught\<close>
  "load_cache st =
     (case cache_file st of
        FileAbsent \<Rightarrow> (Inr (JObj []), st)
      | FileUnreadable \<Rightarrow> (Inr (JObj []), emit (Log L_cache_warning) st)
      | FileBytes bs \<Rightarrow>
          (case read_text bs of
             None \<Rightarrow> (Inl UnicodeDecodeError, st)
           | Some content \<Rightarrow>
               if content = [] then (Inr (JObj []), st)
               else
                 (case json_loads content of
                    None \<Rightarrow> (Inr (JObj []), emit (Log L_cache_warning) st)
                  | Some v \<Rightarrow> (Inr v, st))))"

definition save_cache :: "'f env \<Rightarrow> jsonval \<Rightarrow> 'f state \<Rightarrow> pyexc option \<times> 'f state" where
  \<comment> \<open>lines 88 to 97; only \<open>IOError\<close> is caught\<close>
  "save_cache env cache_data st =
     (let n = length (filter is_write (trace st));
          st1 = emit (Call_write cache_data) st
      in case cache_write env n of
           IOErrorOnOpen \<Rightarrow> (None, emit (Log L_cache_write_error) st1)
         | IOErrorOnWrite \<Rightarrow>
             (None, emit (Log L_cache_write_error) (st1\<lparr>cache_file := FileBytes (torn_write env n)\<rparr>))
         | WriteOk \<Rightarrow>
             (case utf8_encode (json_dumps cache_data) of
                None \<Rightarrow> (Some UnicodeEncodeError, st1\<lparr>cache_file := FileBytes (torn_write env n)\<rparr>)
              | Some bs \<Rightarrow>
                  (None, emit (Log L_cache_saved) (st1\<lparr>cache_file := FileBytes (map of_nat bs)\<rparr>))))"

fun py_in :: "pystr \<Rightarrow> jsonval \<Rightarrow> pyexc + bool" where
  \<comment> \<open>\<open>package_name in app_tags_cache\<close>\<close>
  "py_in k (JObj kvs) = Inr (k \<in> set (map fst kvs))"
| "py_in k (JArr xs) = Inr (JStr k \<in> set xs)"
| "py_in k (JStr s) = Inr (str_contains k s)"
| "py_in k _ = Inl TypeError"

fun py_getitem :: "jsonval \<Rightarrow> pystr \<Rightarrow> pyexc + jsonval" where
  \<comment> \<open>\<open>app_tags_cache[package_name]\<close>, after the key was found\<close>
  "py_getitem (JObj kvs) k = (case map_of kvs k of Some v \<Rightarrow> Inr v | None \<Rightarrow> Inl KeyError)"
| "py_getitem _ k = Inl TypeError"

fun py_setitem :: "jsonval \<Rightarrow> pystr \<Rightarrow> jsonval \<Rightarrow> pyexc + jsonval" where
  \<comment> \<open>\<open>app_tags_cache[package_name] = tags\<close>\<close>
  "py_setitem (JObj kvs) k v = Inr (JObj (dict_set kvs k v))"
| "py_setitem _ k v = Inl TypeError"

section \<open>The two clients\<close>

definition get_app_description ::
  "'f env \<Rightarrow> pystr option \<Rightarrow> pystr \<Rightarrow> 'f state \<Rightarrow> pystr \<times> 'f state" where
  \<comment> \<open>lines 111 to 187; \<open>None.strip()\<close> raises inside the \<open>try\<close>\<close>
  "get_app_description env app_name package_name st =
     (let n = length (filter is_generate (trace st));
          st1 = emit (Call_generate_content app_name package_name) (emit (Log (L_api_call app_name)) st)
      in case generate_content env n app_name package_name of
           GenRaises \<Rightarrow> (SENTINEL, emit (Log L_llm_error) st1)
         | GenResponse None \<Rightarrow> (SENTINEL, emit (Log L_llm_error) st1)
         | GenResponse (Some txt) \<Rightarrow>
             (let tags = strip txt in
              if tags = [] then (SENTINEL, st1) else (tags, st1)))"

fun sliceable :: "jsonval \<Rightarrow> bool" where
  \<comment> \<open>\<open>text[:20]\<close> in the message of line 193, outside the \<open>try\<close>\<close>
  "sliceable (JStr s) = True"
| "sliceable (JArr xs) = True"
| "sliceable _ = False"

definition get_embedding ::
  "'f env \<Rightarrow> jsonval \<Rightarrow> 'f state \<Rightarrow> (pyexc + 'f list option) \<times> 'f state" where
  \<comment> \<open>lines 189 to 202\<close>
  "get_embedding env text' st =
     (if \<not> sliceable text' then (Inl TypeError, st)
      else
        (let n = length (filter is_embed (trace st));
             st1 = emit (Call_embed_content text') (emit (Log (L_embedding text')) st)
         in case embed_content env n text' of
              EmbRaises \<Rightarrow> (Inr None, emit (Log L_embed_error) st1)
            | EmbReturns v \<Rightarrow> (Inr (Some v), st1)))"

section \<open>The orchestrator\<close>

definition truthy :: "'f list option \<Rightarrow> bool" where
  \<comment> \<open>\<open>if vector:\<close>\<close>
  "truthy vector = (case vector of None \<Rightarrow> False | Some v \<Rightarrow> v \<noteq> [])"

definition after_tags :: "'f env \<Rightarrow> app \<Rightarrow> jsonval \<Rightarrow> 'f state \<Rightarrow> pyexc option \<times> 'f state" where
  \<comment> \<open>the loop body from line 256 on, once \<open>tags\<close> is known\<close>
  "after_tags env a tags' st =
     (let st1 = emit (Log (L_tags tags')) st in
      if tags' = JStr SENTINEL then (None, emit (Log L_skip) st1)
      else
        (case get_embedding env tags' st1 of
           (Inl e, st2) \<Rightarrow> (Some e, st2)
         | (Inr vector, st2) \<Rightarrow>
             if truthy vector then
               (None, emit (Log L_vector_ok)
                  (st2\<lparr>processed_apps := processed_apps st2 @
                          [\<lparr>name = name a, package = package a, tags = tags'\<rparr>],
                       app_vectors := app_vectors st2 @ [the vector]\<rparr>))
             else (None, st2)))"

definition resolve_tags :: "'f env \<Rightarrow> app \<Rightarrow> 'f state \<Rightarrow> (pyexc + jsonval) \<times> 'f state" where
  \<comment> \<open>step 2 of the loop body, lines 242 to 254: the cache, or the classifier and a write\<close>
  "resolve_tags env a st =
     (case py_in (package a) (app_tags_cache st) of
        Inl e \<Rightarrow> (Inl e, st)
      | Inr True \<Rightarrow>
          (case py_getitem (app_tags_cache st) (package a) of
             Inl e \<Rightarrow> (Inl e, st)
           | Inr tags' \<Rightarrow> (Inr tags', emit (Log L_cache_hit) st))
      | Inr False \<Rightarrow>
          (case get_app_description env (name a) (package a) st of
             (tags', st2) \<Rightarrow>
               (case py_setitem (app_tags_cache st2) (package a) (JStr tags') of
                  Inl e \<Rightarrow> (Inl e, st2)
                | Inr cache' \<Rightarrow>
                    (case save_cache env cache' (st2\<lparr>app_tags_cache := cache'\<rparr>) of
                       (Some e, st3) \<Rightarrow> (Inl e, st3)
                     | (None, st3) \<Rightarrow> (Inr (JStr tags'), st3)))))"

definition process_app :: "'f env \<Rightarrow> app \<Rightarrow> 'f state \<Rightarrow> pyexc option \<times> 'f state" where
  \<comment> \<open>the loop body, lines 238 to 269; \<open>Some e\<close> is an exception that leaves \<open>main\<close>\<close>
  "process_app env a st =
     (case resolve_tags env a (emit (Log (L_app (name a) (package a))) st) of
        (Inl e, st2) \<Rightarrow> (Some e, st2)
      | (Inr tags', st2) \<Rightarrow> after_tags env a tags' st2)"

fun process_apps :: "'f env \<Rightarrow> app list \<Rightarrow> 'f state \<Rightarrow> pyexc option \<times> 'f state" where
  \<comment> \<open>\<open>for app in apps_to_process\<close>\<close>
  "process_apps env [] st = (None, st)"
| "process_apps env (a # rest) st =
     (case process_app env a st of
        (Some e, st') \<Rightarrow> (Some e, st')
      | (None, st') \<Rightarrow> process_apps env rest st')"

definition add_to_group :: "groups \<Rightarrow> group_name \<Rightarrow> pystr option \<Rightarrow> groups" where
  \<comment> \<open>lines 298 to 301\<close>
  "add_to_group final_groups g n =
     (case map_of final_groups g of
        None \<Rightarrow> dict_set final_groups g [n]
      | Some members \<Rightarrow> dict_set final_groups g (members @ [n]))"

fun build_groups :: "tagged_app list \<Rightarrow> nat \<Rightarrow> int list \<Rightarrow> groups \<Rightarrow> pyexc + groups" where
  \<comment> \<open>the loop of lines 290 to 301 from index \<open>i\<close> on\<close>
  "build_groups [] i clusters final_groups = Inr final_groups"
| "build_groups (app_info # rest) i clusters final_groups =
     (if i < length clusters then
        (let cluster_id = clusters ! i;
             g = (if cluster_id = - 1 then Outliers else Group cluster_id)
         in build_groups rest (Suc i) clusters (add_to_group final_groups g (name app_info)))
      else Inl IndexError)"

definition group_members :: "groups \<Rightarrow> pystr option list" where
  \<comment> \<open>the names in the lists of \<open>final_groups\<close>, group after group\<close>
  "group_members final_groups = concat (map snd final_groups)"

definition setup_gemini :: "'f env \<Rightarrow> pyexc option" where
  \<comment> \<open>lines 100 to 109: \<open>not api_key\<close> holds for \<open>None\<close> and for the empty string\<close>
  "setup_gemini env =
     (case GOOGLE_API_KEY env of
        None \<Rightarrow> Some ValueError
      | Some k \<Rightarrow> if k = [] then Some ValueError else None)"

definition main :: "'f env \<Rightarrow> 'f state \<Rightarrow> pyexc option \<times> 'f state" where
  \<comment> \<open>lines 204 to 304. \<open>None\<close>: \<open>main\<close> returned; \<open>Some e\<close>: \<open>e\<close> left \<open>main\<close> uncaught\<close>
  "main env st0 =
     (case setup_gemini env of
        Some e \<Rightarrow> (None, emit (Log (L_exception e)) st0)
      | None \<Rightarrow>
          (let st1 = emit (Log L_setup_ok) st0 in
           case extract_apps_from_db (db env) of
             Inl e \<Rightarrow> (None, emit (Log (L_exception e)) st1)
           | Inr apps_to_process \<Rightarrow>
               (let st2 = emit (Log (L_extracted (length apps_to_process))) st1 in
                if apps_to_process = [] then (None, emit (Log L_no_apps) st2)
                else
                  (case load_cache (emit (Log L_start) st2) of
                     (Inl e, st3) \<Rightarrow> (Some e, st3)
                   | (Inr loaded, st3) \<Rightarrow>
                       (case process_apps env apps_to_process
                               (st3\<lparr>app_tags_cache := loaded, processed_apps := [], app_vectors := []\<rparr>) of
                          (Some e, st4) \<Rightarrow> (Some e, st4)
                        | (None, st4) \<Rightarrow>
                            if app_vectors st4 = [] then (None, emit (Log L_no_vectors) st4)
                            else
                              (let st5 = emit (Call_fit_predict (app_vectors st4))
                                           (emit (Log L_dbscan) (emit (Log L_all_done) st4))
                               in case fit_predict env (app_vectors st4) of
                                    Inl e \<Rightarrow> (Some e, st5)
                                  | Inr clusters \<Rightarrow>
                                      (case build_groups (processed_apps st4) 0 clusters [] of
                                         Inl e \<Rightarrow> (Some e, emit (Log L_clustered) st5)
                                       | Inr final_groups \<Rightarrow>
                                           (None, emit (Log (L_result final_groups))
                                                    (emit (Log L_clustered) st5)))))))))"

definition exit_status :: "pyexc option \<times> 'f state \<Rightarrow> nat" where
  \<comment> \<open>lines 306 and 307: the script ends with 0 when \<open>main()\<close> returns, with 1 on a traceback\<close>
  "exit_status r = (case fst r of None \<Rightarrow> 0 | Some e \<Rightarrow> 1)"

definition initial :: "file_state \<Rightarrow> 'f state" where
  "initial f = \<lparr>cache_file = f, trace = [], app_tags_cache = JObj [], processed_apps = [],
                app_vectors = []\<rparr>"

section \<open>Concrete runs\<close>

text \<open>
  A launcher database with two shortcuts that share the title \<open>Cam\<close>. The first call
  of the classifier fails, later calls answer \<open>photo\<close> between blanks; the embedder
  answers a vector of two numbers; every write succeeds; the clustering labels every
  vector an outlier.
\<close>

definition demo_rows :: "row list" where
  "demo_rows =
     [(Some (ascii ''Cam''), Some (ascii ''#Intent;component=a.b/.Main;end'')),
      (Some (ascii ''Folder''), None),
      (Some (ascii ''Cam''), Some (ascii ''#Intent;component=c.d/.Main;end''))]"

definition demo_env :: "nat env" where
  "demo_env =
     \<lparr>GOOGLE_API_KEY = Some (ascii ''key''),
      db = DbRows demo_rows,
      generate_content = (\<lambda>n a p. if n = 0 then GenRaises else GenResponse (Some (ascii '' photo ''))),
      embed_content = (\<lambda>n t. EmbReturns [1, 2]),
      cache_write = (\<lambda>n. WriteOk),
      torn_write = (\<lambda>n. []),
      fit_predict = (\<lambda>m. Inr (map (\<lambda>v. - 1) m))\<rparr>"

definition app_ab :: app where
  "app_ab = \<lparr>name = Some (ascii ''Cam''), package = ascii ''a.b''\<rparr>"

definition app_cd :: app where
  "app_cd = \<lparr>name = Some (ascii ''Cam''), package = ascii ''c.d''\<rparr>"

definition cached_state :: "nat state" where
  \<comment> \<open>a state of the loop in which \<open>a.b\<close> is cached with the sentinel tag\<close>
  "cached_state =
     \<lparr>cache_file = FileAbsent, trace = [], app_tags_cache = JObj [(ascii ''a.b'', JStr SENTINEL)],
      processed_apps = [], app_vectors = []\<rparr>"

definition blank_env :: "nat env" where
  \<comment> \<open>the classifier answers two blanks\<close>
  "blank_env = demo_env\<lparr>generate_content := (\<lambda>n a p. GenResponse (Some (ascii ''  '')))\<rparr>"

definition failing_env :: "nat env" where
  \<comment> \<open>every call of the classifier raises\<close>
  "failing_env = demo_env\<lparr>generate_content := (\<lambda>n a p. GenRaises)\<rparr>"

definition readonly_env :: "nat env" where
  \<comment> \<open>the classifier answers \<open>photo\<close>; the cache file cannot be opened for writing\<close>
  "readonly_env =
     demo_env\<lparr>generate_content := (\<lambda>n a p. GenResponse (Some (ascii ''photo''))),
              cache_write := (\<lambda>n. IOErrorOnOpen)\<rparr>"

definition writable_env :: "nat env" where
  \<comment> \<open>the classifier answers \<open>photo\<close>; every write succeeds\<close>
  "writable_env = demo_env\<lparr>generate_content := (\<lambda>n a p. GenResponse (Some (ascii ''photo'')))\<rparr>"

definition no_key_env :: "nat env" where
  "no_key_env = demo_env\<lparr>GOOGLE_API_KEY := None\<rparr>"

definition no_db_env :: "nat env" where
  "no_db_env = demo_env\<lparr>db := DbMissing\<rparr>"

definition bad_db_env :: "nat env" where
  "bad_db_env = demo_env\<lparr>db := DbFails (ascii ''no such table: favorites'')\<rparr>"

definition empty_db_env :: "nat env" where
  "empty_db_env = demo_env\<lparr>db := DbRows [(Some (ascii ''Folder''), None)]\<rparr>"

definition demo_start :: "nat state" where
  \<comment> \<open>the state in which \<open>main\<close> enters its loop, for a missing cache file\<close>
  "demo_start =
     \<lparr>cache_file = FileAbsent, trace = [Log L_setup_ok, Log (L_extracted 2), Log L_start],
      app_tags_cache = JObj [], processed_apps = [], app_vectors = []\<rparr>"

definition torn_bytes :: "byte list" where
  \<comment> \<open>the file \<open>{"a": "\<close> + U+4FE1 cut after the second of the character's three bytes\<close>
  "torn_bytes =
     [0x7B, 0x0A, 0x20, 0x20, 0x20, 0x20, 0x22, 0x61, 0x22, 0x3A, 0x20, 0x22, 0xE4, 0xBF]"

section \<open>Basic facts about the state\<close>

lemma emit_simps [simp]:
  "trace (emit ev st) = trace st @ [ev]"
  "cache_file (emit ev st) = cache_file st"
  "app_tags_cache (emit ev st) = app_tags_cache st"
  "processed_apps (emit ev st) = processed_apps st"
  "app_vectors (emit ev st) = app_vectors st"
  by (simp_all add: emit_def)

section \<open>The classifier client\<close>

lemma replicate_4: "replicate 4 x = [x, x, x, x]"
  by (simp add: numeral_eq_Suc)

lemmas eval_defs =
  demo_env_def process_app_def resolve_tags_def get_app_description_def save_cache_def
  json_dumps_def encode_basestring_def escape_char_def utf8_encode_char_def after_tags_def
  get_embedding_def truthy_def emit_def initial_def strip_def py_isspace_def SENTINEL_def
  ascii_def Let_def QUOTE_def BACKSLASH_def newline_indent_def app_ab_def app_cd_def
  replicate_4 new_events_def

lemma get_app_description_raises:
  assumes "generate_content env (length (filter is_generate (trace st))) app_name package_name = GenRaises"
  shows "get_app_description env app_name package_name st =
           (SENTINEL,
            emit (Log L_llm_error)
              (emit (Call_generate_content app_name package_name)
                 (emit (Log (L_api_call app_name)) st)))"
  using assms by (simp add: get_app_description_def)

lemma get_app_description_blank:
  assumes "generate_content env (length (filter is_generate (trace st))) app_name package_name =
             GenResponse (Some txt)"
    and "strip txt = []"
  shows "get_app_description env app_name package_name st =
           (SENTINEL,
            emit (Call_generate_content app_name package_name) (emit (Log (L_api_call app_name)) st))"
  using assms by (simp add: get_app_description_def)

lemma get_app_description_tags:
  assumes "generate_content env (length (filter is_generate (trace st))) app_name package_name =
             GenResponse (Some txt)"
    and "strip txt \<noteq> []"
  shows "get_app_description env app_name package_name st =
           (strip txt,
            emit (Call_generate_content app_name package_name) (emit (Log (L_api_call app_name)) st))"
  using assms by (simp add: get_app_description_def)

text \<open>
  C3. When the remote text generation call raises, \<open>get_app_description\<close> returns the
  sentinel tag. The function has no exceptional outcome: its \<open>except Exception\<close>
  covers the call and the reading of the answer, so the result is always a string and
  a state. The only effect on the state is the log: the announcement, the call and the
  error message.
\<close>

theorem get_app_description_failure:
  assumes "generate_content env (length (filter is_generate (trace st))) app_name package_name = GenRaises"
  shows "get_app_description env app_name package_name st =
           (SENTINEL,
            emit (Log L_llm_error)
              (emit (Call_generate_content app_name package_name)
                 (emit (Log (L_api_call app_name)) st)))"
  using assms by (rule get_app_description_raises)

theorem get_app_description_failure_witness:
  "get_app_description demo_env (Some (ascii ''Cam'')) (ascii ''a.b'') (initial FileAbsent) =
     (SENTINEL,
      emit (Log L_llm_error)
        (emit (Call_generate_content (Some (ascii ''Cam'')) (ascii ''a.b''))
           (emit (Log (L_api_call (Some (ascii ''Cam'')))) (initial FileAbsent))))"
proof -
  have "generate_content demo_env (length (filter is_generate (trace (initial FileAbsent :: nat state))))
          (Some (ascii ''Cam'')) (ascii ''a.b'') = GenRaises"
    by (simp add: demo_env_def initial_def)
  from get_app_description_failure [OF this] show ?thesis .
qed

section \<open>Loading the cache\<close>

lemma load_cache_absent: "cache_file st = FileAbsent \<Longrightarrow> load_cache st = (Inr (JObj []), st)"
  by (simp add: load_cache_def)

lemma load_cache_unreadable:
  "cache_file st = FileUnreadable \<Longrightarrow> load_cache st = (Inr (JObj []), emit (Log L_cache_warning) st)"
  by (simp add: load_cache_def)

lemma load_cache_empty:
  "cache_file st = FileBytes [] \<Longrightarrow> load_cache st = (Inr (JObj []), st)"
  by (simp add: load_cache_def read_text_def)

lemma load_cache_unparsable:
  "cache_file st = FileBytes bs \<Longrightarrow> read_text bs = Some content \<Longrightarrow> content \<noteq> [] \<Longrightarrow>
   json_loads content = None \<Longrightarrow> load_cache st = (Inr (JObj []), emit (Log L_cache_warning) st)"
  by (simp add: load_cache_def)

lemma load_cache_undecodable:
  "cache_file st = FileBytes bs \<Longrightarrow> read_text bs = None \<Longrightarrow> load_cache st = (Inl UnicodeDecodeError, st)"
  by (simp add: load_cache_def)

lemma read_text_torn_bytes: "read_text torn_bytes = None"
  by (simp add: read_text_def torn_bytes_def is_cont_def)

text \<open>
  C4. \<open>load_cache\<close> returns the empty mapping for a missing file, an unreadable file,
  an empty file and a text that is not JSON (lemmas above). It does raise for a file
  whose bytes are not UTF-8: \<open>f.read()\<close> raises \<open>UnicodeDecodeError\<close>, which is neither
  an \<open>IOError\<close> nor a \<open>JSONDecodeError\<close>, so the \<open>except\<close> clause lets it through and it
  leaves \<open>main\<close> as well. The file below is what an interrupted write leaves behind
  when it stops inside a character of a tag.
\<close>

theorem load_cache_raises_on_torn_file:
  "fst (load_cache (initial (FileBytes torn_bytes) :: nat state)) = Inl UnicodeDecodeError \<and>
   main demo_env (initial (FileBytes torn_bytes)) =
     (Some UnicodeDecodeError,
      emit (Log L_start) (emit (Log (L_extracted 2)) (emit (Log L_setup_ok) (initial (FileBytes torn_bytes))))) \<and>
   exit_status (main demo_env (initial (FileBytes torn_bytes))) = 1"
proof -
  have rows: "extract_rows demo_rows [] = [app_ab, app_cd]"
    by (simp add: demo_rows_def app_ab_def app_cd_def ascii_def match_at_def startswith_def
        MARKER_def SLASH_def group_lengths_def)
  have l: "\<And>st :: nat state. cache_file st = FileBytes torn_bytes \<Longrightarrow> load_cache st = (Inl UnicodeDecodeError, st)"
    by (rule load_cache_undecodable [OF _ read_text_torn_bytes])
  have m: "main demo_env (initial (FileBytes torn_bytes)) =
     (Some UnicodeDecodeError,
      emit (Log L_start) (emit (Log (L_extracted 2)) (emit (Log L_setup_ok) (initial (FileBytes torn_bytes)))))"
    by (simp add: main_def setup_gemini_def demo_env_def extract_apps_from_db_def rows l
        initial_def ascii_def)
  have c: "cache_file (initial (FileBytes torn_bytes) :: nat state) = FileBytes torn_bytes"
    by (simp add: initial_def)
  show ?thesis
    using m l [OF c] by (simp add: exit_status_def)
qed

section \<open>Fatal conditions and the exit status\<close>

lemma main_no_credential:
  "setup_gemini env = Some e \<Longrightarrow> main env st = (None, emit (Log (L_exception e)) st)"
  by (simp add: main_def)

lemma main_no_source:
  "setup_gemini env = None \<Longrightarrow> extract_apps_from_db (db env) = Inl e \<Longrightarrow>
   main env st = (None, emit (Log (L_exception e)) (emit (Log L_setup_ok) st))"
  by (simp add: main_def)

lemma main_no_apps:
  "setup_gemini env = None \<Longrightarrow> extract_apps_from_db (db env) = Inr [] \<Longrightarrow>
   main env st = (None, emit (Log L_no_apps) (emit (Log (L_extracted 0)) (emit (Log L_setup_ok) st)))"
  by (simp add: main_def)

lemma main_no_vectors:
  "setup_gemini env = None \<Longrightarrow> extract_apps_from_db (db env) = Inr apps \<Longrightarrow> apps \<noteq> [] \<Longrightarrow>
   load_cache (emit (Log L_start) (emit (Log (L_extracted (length apps))) (emit (Log L_setup_ok) st))) =
     (Inr loaded, st3) \<Longrightarrow>
   process_apps env apps (st3\<lparr>app_tags_cache := loaded, processed_apps := [], app_vectors := []\<rparr>) =
     (None, st4) \<Longrightarrow>
   app_vectors st4 = [] \<Longrightarrow>
   main env st = (None, emit (Log L_no_vectors) st4)"
  by (simp add: main_def)

section \<open>What one step of the loop does to the state\<close>

lemma map_fst_dict_set:
  "map fst (dict_set d k v) = (if k \<in> set (map fst d) then map fst d else map fst d @ [k])"
  by (induction d) (fastforce simp: image_iff)+

lemma dict_set_keys: "set (map fst (dict_set d k v)) = insert k (set (map fst d))"
  by (simp add: map_fst_dict_set insert_absorb)

lemma map_of_dict_set: "map_of (dict_set d k v) = (map_of d)(k \<mapsto> v)"
  by (induction d) (auto simp: fun_eq_iff)

lemma dict_set_new: "k \<notin> set (map fst d) \<Longrightarrow> dict_set d k v = d @ [(k, v)]"
  by (induction d) auto

lemma new_events_emit [simp]:
  "new_events st (emit ev st) = [ev]"
  "new_events st (emit ev2 (emit ev st)) = [ev, ev2]"
  "new_events st (emit ev3 (emit ev2 (emit ev st))) = [ev, ev2, ev3]"
  by (simp_all add: new_events_def)

lemma new_events_append:
  assumes "trace st2 = trace st1 @ new_events st1 st2" and "trace st3 = trace st2 @ new_events st2 st3"
  shows "trace st3 = trace st1 @ new_events st1 st3"
    and "new_events st1 st3 = new_events st1 st2 @ new_events st2 st3"
proof -
  have "trace st3 = trace st1 @ (new_events st1 st2 @ new_events st2 st3)"
    using assms by simp
  then show "new_events st1 st3 = new_events st1 st2 @ new_events st2 st3"
    by (simp add: new_events_def [of st1 st3])
  then show "trace st3 = trace st1 @ new_events st1 st3"
    using assms by simp
qed

lemma get_app_description_effect:
  assumes "get_app_description env n p st = (t, st')"
  shows "cache_file st' = cache_file st" and "app_tags_cache st' = app_tags_cache st"
    and "processed_apps st' = processed_apps st" and "app_vectors st' = app_vectors st"
    and "trace st' = trace st @ new_events st st'"
    and "set (new_events st st') \<subseteq> range Log \<union> {Call_generate_content n p}"
  using assms
  by (auto simp: get_app_description_def Let_def new_events_def
      split: gen_outcome.splits option.splits if_splits)

lemma save_cache_effect:
  assumes "save_cache env c st = (r, st')"
  shows "app_tags_cache st' = app_tags_cache st"
    and "processed_apps st' = processed_apps st" and "app_vectors st' = app_vectors st"
    and "trace st' = trace st @ new_events st st'"
    and "set (new_events st st') \<subseteq> range Log \<union> {Call_write c}"
    and "r = None \<or> r = Some UnicodeEncodeError"
  using assms
  by (auto simp: save_cache_def Let_def new_events_def split: write_outcome.splits option.splits)

lemma after_tags_effect:
  assumes "after_tags env a t st = (r, st')"
  shows "cache_file st' = cache_file st" and "app_tags_cache st' = app_tags_cache st"
    and "trace st' = trace st @ new_events st st'"
    and "set (new_events st st') \<subseteq> range Log \<union> {Call_embed_content t}"
  using assms
  by (auto simp: after_tags_def get_embedding_def Let_def new_events_def
      split: emb_outcome.splits if_splits)

lemma key_in_dict: "k \<in> set (map fst kvs) \<Longrightarrow> \<exists>t. map_of kvs k = Some t"
  by (metis map_of_eq_None_iff not_Some_eq set_map)

lemma resolve_tags_hit:
  "app_tags_cache st = JObj kvs \<Longrightarrow> map_of kvs (package a) = Some t \<Longrightarrow>
   resolve_tags env a st = (Inr t, emit (Log L_cache_hit) st)"
proof -
  assume c: "app_tags_cache st = JObj kvs" and m: "map_of kvs (package a) = Some t"
  from m have "package a \<in> fst ` set kvs"
    by (metis map_of_eq_None_iff option.distinct(1))
  with c m show ?thesis
    by (simp add: resolve_tags_def)
qed

lemma resolve_tags_miss:
  "app_tags_cache st = JObj kvs \<Longrightarrow> package a \<notin> set (map fst kvs) \<Longrightarrow>
   get_app_description env (name a) (package a) st = (t, st2) \<Longrightarrow>
   resolve_tags env a st =
     (case save_cache env (JObj (kvs @ [(package a, JStr t)]))
             (st2\<lparr>app_tags_cache := JObj (kvs @ [(package a, JStr t)])\<rparr>) of
        (Some e, st3) \<Rightarrow> (Inl e, st3)
      | (None, st3) \<Rightarrow> (Inr (JStr t), st3))"
proof -
  assume c: "app_tags_cache st = JObj kvs" and m: "package a \<notin> set (map fst kvs)"
    and g: "get_app_description env (name a) (package a) st = (t, st2)"
  from get_app_description_effect(2) [OF g] c have c2: "app_tags_cache st2 = JObj kvs"
    by simp
  from m have d: "dict_set kvs (package a) (JStr t) = kvs @ [(package a, JStr t)]"
    by (rule dict_set_new)
  from c m g c2 d show ?thesis
    by (simp add: resolve_tags_def)
qed

lemma logs_only_filter:
  assumes "set new \<subseteq> range Log"
  shows "filter is_generate new = []" and "filter is_embed new = []"
    and "filter is_write new = []" and "filter is_fit_predict new = []"
  using assms by (auto simp: filter_empty_conv)

lemma resolve_tags_effect_hit:
  assumes c: "app_tags_cache st = JObj kvs" and r: "resolve_tags env a st = (r, st')"
    and k: "package a \<in> set (map fst kvs)"
  shows "r = Inr (the (map_of kvs (package a)))" and "st' = emit (Log L_cache_hit) st"
proof -
  from key_in_dict [OF k] obtain t where t: "map_of kvs (package a) = Some t" ..
  have "(r, st') = (Inr t, emit (Log L_cache_hit) st)"
    unfolding r [symmetric] by (rule resolve_tags_hit [OF c t])
  then show "r = Inr (the (map_of kvs (package a)))" and "st' = emit (Log L_cache_hit) st"
    by (simp_all add: t)
qed

lemma resolve_tags_effect_miss:
  assumes c: "app_tags_cache st = JObj kvs" and r: "resolve_tags env a st = (r, st')"
    and k: "package a \<notin> set (map fst kvs)"
  shows "processed_apps st' = processed_apps st" and "app_vectors st' = app_vectors st"
    and "trace st' = trace st @ new_events st st'"
    and "\<exists>t. app_tags_cache st' = JObj (kvs @ [(package a, JStr t)]) \<and>
              (r = Inr (JStr t) \<or> r = Inl UnicodeEncodeError) \<and>
              set (new_events st st') \<subseteq>
                range Log \<union> {Call_generate_content (name a) (package a),
                               Call_write (JObj (kvs @ [(package a, JStr t)]))}"
proof -
  obtain t st2 where g: "get_app_description env (name a) (package a) st = (t, st2)"
    by (cases "get_app_description env (name a) (package a) st")
  define c' where "c' = JObj (kvs @ [(package a, JStr t)])"
  define st2' where "st2' = st2\<lparr>app_tags_cache := c'\<rparr>"
  obtain r3 st3 where s: "save_cache env c' st2' = (r3, st3)"
    by (cases "save_cache env c' st2'")
  have rm: "resolve_tags env a st = (case (r3, st3) of (Some e, st3) \<Rightarrow> (Inl e, st3)
      | (None, st3) \<Rightarrow> (Inr (JStr t), st3))"
    using resolve_tags_miss [OF c k g] s by (simp add: c'_def st2'_def)
  have st': "st' = st3" and rr: "r = (case r3 of None \<Rightarrow> Inr (JStr t) | Some e \<Rightarrow> Inl e)"
    using rm r by (cases r3; simp)+
  note g1 = get_app_description_effect [OF g]
  note s1 = save_cache_effect [OF s]
  have n2: "new_events st st2' = new_events st st2"
    by (simp add: st2'_def new_events_def)
  have t2: "trace st2' = trace st @ new_events st st2'"
    unfolding n2 using g1(5) by (simp add: st2'_def)
  note n = new_events_append [OF t2 s1(4)]
  show "processed_apps st' = processed_apps st"
    unfolding st' using s1(2) g1(3) by (simp add: st2'_def)
  show "app_vectors st' = app_vectors st"
    unfolding st' using s1(3) g1(4) by (simp add: st2'_def)
  show "trace st' = trace st @ new_events st st'"
    unfolding st' by (rule n(1))
  have sub: "set (new_events st st3) \<subseteq> range Log \<union> {Call_generate_content (name a) (package a), Call_write c'}"
    unfolding n(2) n2 using g1(6) s1(5) by auto
  have cc: "app_tags_cache st3 = c'"
    using s1(1) by (simp add: st2'_def)
  have re: "r = Inr (JStr t) \<or> r = Inl UnicodeEncodeError"
    using s1(6) rr by auto
  have "app_tags_cache st3 = JObj (kvs @ [(package a, JStr t)]) \<and>
              (r = Inr (JStr t) \<or> r = Inl UnicodeEncodeError) \<and>
              set (new_events st st3) \<subseteq>
                range Log \<union> {Call_generate_content (name a) (package a),
                               Call_write (JObj (kvs @ [(package a, JStr t)]))}"
    using sub cc re unfolding c'_def by simp
  then show "\<exists>t. app_tags_cache st' = JObj (kvs @ [(package a, JStr t)]) \<and>
              (r = Inr (JStr t) \<or> r = Inl UnicodeEncodeError) \<and>
              set (new_events st st') \<subseteq>
                range Log \<union> {Call_generate_content (name a) (package a),
                               Call_write (JObj (kvs @ [(package a, JStr t)]))}"
    unfolding st' by (rule exI)
qed

lemma new_events_same [simp]: "new_events st st = []"
  by (simp add: new_events_def)

lemma new_events_field [simp]:
  "new_events st (st'\<lparr>app_tags_cache := c\<rparr>) = new_events st st'"
  "new_events (st\<lparr>app_tags_cache := c\<rparr>) st' = new_events st st'"
  by (simp_all add: new_events_def)

lemma no_calls_of_kind:
  assumes "set new \<subseteq> range Log \<union> S"
  shows "\<forall>ev\<in>S. \<not> is_generate ev \<Longrightarrow> filter is_generate new = []"
    and "\<forall>ev\<in>S. \<not> is_embed ev \<Longrightarrow> filter is_embed new = []"
    and "\<forall>ev\<in>S. \<not> is_write ev \<Longrightarrow> filter is_write new = []"
    and "\<forall>ev\<in>S. \<not> is_fit_predict ev \<Longrightarrow> filter is_fit_predict new = []"
  using assms by (auto simp: filter_empty_conv)

lemma resolve_tags_general:
  assumes r: "resolve_tags env a st = (r, st')"
  shows "processed_apps st' = processed_apps st" and "app_vectors st' = app_vectors st"
    and "trace st' = trace st @ new_events st st'"
    and "filter is_fit_predict (new_events st st') = []"
    and "filter is_embed (new_events st st') = []"
proof -
  obtain t st2 where g: "get_app_description env (name a) (package a) st = (t, st2)"
    by (cases "get_app_description env (name a) (package a) st")
  note g1 = get_app_description_effect [OF g]
  have g2: "filter is_fit_predict (new_events st st2) = []" "filter is_embed (new_events st st2) = []"
    using no_calls_of_kind(4) [OF g1(6)] no_calls_of_kind(2) [OF g1(6)] by simp_all
  have "processed_apps st' = processed_apps st \<and> app_vectors st' = app_vectors st \<and>
        trace st' = trace st @ new_events st st' \<and>
        filter is_fit_predict (new_events st st') = [] \<and> filter is_embed (new_events st st') = []"
  proof (cases "py_in (package a) (app_tags_cache st)")
    case (Inl e)
    with r show ?thesis by (simp add: resolve_tags_def)
  next
    case (Inr b)
    show ?thesis
    proof (cases b)
      case True
      with Inr r show ?thesis
        by (cases "py_getitem (app_tags_cache st) (package a)") (auto simp: resolve_tags_def)
    next
      case False
      show ?thesis
      proof (cases "py_setitem (app_tags_cache st2) (package a) (JStr t)")
        case (Inl e)
        with Inr False r g have "st' = st2"
          by (simp add: resolve_tags_def)
        with g1 g2 show ?thesis by simp
      next
        case c': (Inr c')
        obtain r3 st3 where s: "save_cache env c' (st2\<lparr>app_tags_cache := c'\<rparr>) = (r3, st3)"
          by (cases "save_cache env c' (st2\<lparr>app_tags_cache := c'\<rparr>)")
        from Inr False r g c' s have st': "st' = st3"
          by (cases r3) (simp_all add: resolve_tags_def)
        note s1 = save_cache_effect [OF s]
        have t2: "trace (st2\<lparr>app_tags_cache := c'\<rparr>) = trace st @ new_events st (st2\<lparr>app_tags_cache := c'\<rparr>)"
          using g1(5) by simp
        note n = new_events_append [OF t2 s1(4)]
        have s2: "filter is_fit_predict (new_events (st2\<lparr>app_tags_cache := c'\<rparr>) st3) = []"
             "filter is_embed (new_events (st2\<lparr>app_tags_cache := c'\<rparr>) st3) = []"
          using no_calls_of_kind(4) [OF s1(5)] no_calls_of_kind(2) [OF s1(5)] by simp_all
        show ?thesis
          unfolding st' using n(1) s1(2,3) g1(3,4) g2 s2 unfolding n(2) by simp
      qed
    qed
  qed
  then show "processed_apps st' = processed_apps st" and "app_vectors st' = app_vectors st"
    and "trace st' = trace st @ new_events st st'"
    and "filter is_fit_predict (new_events st st') = []"
    and "filter is_embed (new_events st st') = []"
    by simp_all
qed

lemma after_tags_sentinel:
  "after_tags env a (JStr SENTINEL) st = (None, emit (Log L_skip) (emit (Log (L_tags (JStr SENTINEL))) st))"
  by (simp add: after_tags_def)

lemma after_tags_general:
  assumes "after_tags env a t st = (r, st')"
  shows "filter is_fit_predict (new_events st st') = []"
    and "filter is_generate (new_events st st') = []"
    and "filter is_write (new_events st st') = []"
    and "(processed_apps st' = processed_apps st \<and> app_vectors st' = app_vectors st) \<or>
         (t \<noteq> JStr SENTINEL \<and> (\<exists>v. v \<noteq> [] \<and> app_vectors st' = app_vectors st @ [v]) \<and>
          processed_apps st' = processed_apps st @ [\<lparr>name = name a, package = package a, tags = t\<rparr>])"
proof -
  note e = after_tags_effect [OF assms]
  show "filter is_fit_predict (new_events st st') = []"
    and "filter is_generate (new_events st st') = []"
    and "filter is_write (new_events st st') = []"
    using no_calls_of_kind(4) [OF e(4)] no_calls_of_kind(1) [OF e(4)] no_calls_of_kind(3) [OF e(4)]
    by simp_all
  show "(processed_apps st' = processed_apps st \<and> app_vectors st' = app_vectors st) \<or>
         (t \<noteq> JStr SENTINEL \<and> (\<exists>v. v \<noteq> [] \<and> app_vectors st' = app_vectors st @ [v]) \<and>
          processed_apps st' = processed_apps st @ [\<lparr>name = name a, package = package a, tags = t\<rparr>])"
    using assms
    by (auto simp: after_tags_def get_embedding_def Let_def truthy_def
        split: emb_outcome.splits if_splits option.splits)
qed

lemma process_app_split:
  assumes p: "process_app env a st = (r, st')"
  obtains (raised) e where "resolve_tags env a (emit (Log (L_app (name a) (package a))) st) = (Inl e, st')"
      and "r = Some e"
    | (tagged) t st2 where "resolve_tags env a (emit (Log (L_app (name a) (package a))) st) = (Inr t, st2)"
      and "after_tags env a t st2 = (r, st')"
proof -
  obtain r2 st2 where r2: "resolve_tags env a (emit (Log (L_app (name a) (package a))) st) = (r2, st2)"
    by (cases "resolve_tags env a (emit (Log (L_app (name a) (package a))) st)")
  show thesis
  proof (cases r2)
    case (Inl e)
    with r2 p have "st' = st2" "r = Some e"
      by (simp_all add: process_app_def)
    with r2 Inl raised show thesis by simp
  next
    case (Inr t)
    with r2 p have "after_tags env a t st2 = (r, st')"
      by (simp add: process_app_def)
    with r2 Inr tagged show thesis by simp
  qed
qed

lemma process_app_general:
  assumes p: "process_app env a st = (r, st')"
  shows "trace st' = trace st @ new_events st st'"
    and "filter is_fit_predict (new_events st st') = []"
    and "(processed_apps st' = processed_apps st \<and> app_vectors st' = app_vectors st) \<or>
         (\<exists>t v. t \<noteq> JStr SENTINEL \<and> v \<noteq> [] \<and> app_vectors st' = app_vectors st @ [v] \<and>
          processed_apps st' = processed_apps st @ [\<lparr>name = name a, package = package a, tags = t\<rparr>])"
proof -
  define st1 where "st1 = emit (Log (L_app (name a) (package a))) st"
  have t1: "trace st1 = trace st @ new_events st st1" and n1: "new_events st st1 = [Log (L_app (name a) (package a))]"
    by (simp_all add: st1_def)
  have f1: "processed_apps st1 = processed_apps st" "app_vectors st1 = app_vectors st"
    by (simp_all add: st1_def)
  from p have "trace st' = trace st @ new_events st st' \<and>
    filter is_fit_predict (new_events st st') = [] \<and>
    ((processed_apps st' = processed_apps st \<and> app_vectors st' = app_vectors st) \<or>
         (\<exists>t v. t \<noteq> JStr SENTINEL \<and> v \<noteq> [] \<and> app_vectors st' = app_vectors st @ [v] \<and>
          processed_apps st' = processed_apps st @ [\<lparr>name = name a, package = package a, tags = t\<rparr>]))"
  proof (cases rule: process_app_split)
    case (raised e)
    then have rs: "resolve_tags env a st1 = (Inl e, st')" by (simp add: st1_def)
    note g = resolve_tags_general [OF rs]
    note n = new_events_append [OF t1 g(3)]
    show ?thesis
      using n(1) g(1,2,4) f1 unfolding n(2) n1 by simp
  next
    case (tagged t st2)
    then have rs: "resolve_tags env a st1 = (Inr t, st2)" by (simp add: st1_def)
    note g = resolve_tags_general [OF rs]
    note n = new_events_append [OF t1 g(3)]
    note e = after_tags_effect [OF tagged(2)]
    note h = after_tags_general [OF tagged(2)]
    note m = new_events_append [OF n(1) e(3)]
    have "filter is_fit_predict (new_events st st') = []"
      unfolding m(2) n(2) n1 using g(4) h(1) by simp
    moreover have "(processed_apps st' = processed_apps st \<and> app_vectors st' = app_vectors st) \<or>
         (\<exists>t v. t \<noteq> JStr SENTINEL \<and> v \<noteq> [] \<and> app_vectors st' = app_vectors st @ [v] \<and>
          processed_apps st' = processed_apps st @ [\<lparr>name = name a, package = package a, tags = t\<rparr>])"
      using h(4) unfolding g(1) g(2) f1 by auto
    ultimately show ?thesis
      using m(1) by simp
  qed
  then show "trace st' = trace st @ new_events st st'"
    and "filter is_fit_predict (new_events st st') = []"
    and "(processed_apps st' = processed_apps st \<and> app_vectors st' = app_vectors st) \<or>
         (\<exists>t v. t \<noteq> JStr SENTINEL \<and> v \<noteq> [] \<and> app_vectors st' = app_vectors st @ [v] \<and>
          processed_apps st' = processed_apps st @ [\<lparr>name = name a, package = package a, tags = t\<rparr>])"
    by simp_all
qed

lemma process_apps_general:
  assumes "process_apps env apps st = (r, st')"
  shows "trace st' = trace st @ new_events st st' \<and>
         filter is_fit_predict (new_events st st') = [] \<and>
         ((\<forall>p\<in>set (processed_apps st). tags p \<noteq> JStr SENTINEL) \<longrightarrow>
          (\<forall>p\<in>set (processed_apps st'). tags p \<noteq> JStr SENTINEL)) \<and>
         (length (processed_apps st) = length (app_vectors st) \<longrightarrow>
          length (processed_apps st') = length (app_vectors st'))"
  using assms
proof (induction apps arbitrary: st)
  case Nil
  then show ?case by simp
next
  case (Cons a rest)
  obtain r1 st1 where p: "process_app env a st = (r1, st1)"
    by (cases "process_app env a st")
  note g = process_app_general [OF p]
  have inv: "((\<forall>p\<in>set (processed_apps st). tags p \<noteq> JStr SENTINEL) \<longrightarrow>
          (\<forall>p\<in>set (processed_apps st1). tags p \<noteq> JStr SENTINEL)) \<and>
         (length (processed_apps st) = length (app_vectors st) \<longrightarrow>
          length (processed_apps st1) = length (app_vectors st1))"
    using g(3) by auto
  show ?case
  proof (cases r1)
    case (Some e)
    with p Cons.prems have "st' = st1" by simp
    with g inv show ?thesis by simp
  next
    case None
    with p Cons.prems have "process_apps env rest st1 = (r, st')" by simp
    note ih = Cons.IH [OF this]
    note n = new_events_append [OF g(1) conjunct1 [OF ih]]
    have "filter is_fit_predict (new_events st st') = []"
      unfolding n(2) using g(2) ih by simp
    with n(1) inv ih show ?thesis by simp
  qed
qed

lemma process_app_hit:
  assumes c: "app_tags_cache st = JObj kvs" and m: "map_of kvs (package a) = Some t"
  shows "process_app env a st =
           after_tags env a t (emit (Log L_cache_hit) (emit (Log (L_app (name a) (package a))) st))"
proof -
  have "app_tags_cache (emit (Log (L_app (name a) (package a))) st) = JObj kvs"
    using c by simp
  from resolve_tags_hit [OF this m] show ?thesis
    by (simp add: process_app_def)
qed

lemma process_app_cached:
  assumes c: "app_tags_cache st = JObj kvs" and m: "map_of kvs pkg = Some t"
    and p: "process_app env a st = (r, st')"
  shows "\<exists>kvs'. app_tags_cache st' = JObj kvs' \<and> map_of kvs' pkg = Some t"
    and "\<forall>n. Call_generate_content n pkg \<notin> set (new_events st st')"
proof -
  define st1 where "st1 = emit (Log (L_app (name a) (package a))) st"
  have t1: "trace st1 = trace st @ new_events st st1" and n1: "new_events st st1 = [Log (L_app (name a) (package a))]"
    by (simp_all add: st1_def)
  have c1: "app_tags_cache st1 = JObj kvs"
    using c by (simp add: st1_def)
  have pk: "pkg \<in> set (map fst kvs)"
    using m by (metis map_of_eq_None_iff option.distinct(1) set_map)
  obtain r2 st2 where rs: "resolve_tags env a st1 = (r2, st2)"
    by (cases "resolve_tags env a st1")
  note g = resolve_tags_general [OF rs]
  note n = new_events_append [OF t1 g(3)]
  have mid: "(\<exists>kvs'. app_tags_cache st2 = JObj kvs' \<and> map_of kvs' pkg = Some t) \<and>
             (\<forall>n. Call_generate_content n pkg \<notin> set (new_events st1 st2))"
  proof (cases "package a \<in> set (map fst kvs)")
    case True
    from resolve_tags_effect_hit(2) [OF c1 rs True] have "st2 = emit (Log L_cache_hit) st1" .
    then show ?thesis using c1 m by auto
  next
    case False
    from resolve_tags_effect_miss(4) [OF c1 rs False] obtain t' where
      t': "app_tags_cache st2 = JObj (kvs @ [(package a, JStr t')])"
      and sub: "set (new_events st1 st2) \<subseteq>
                range Log \<union> {Call_generate_content (name a) (package a),
                               Call_write (JObj (kvs @ [(package a, JStr t')]))}"
      by auto
    from False pk have ne: "package a \<noteq> pkg" by auto
    have "map_of (kvs @ [(package a, JStr t')]) pkg = Some t"
      using m by simp
    moreover have "\<forall>n. Call_generate_content n pkg \<notin> set (new_events st1 st2)"
      using sub ne by auto
    ultimately show ?thesis using t' by simp
  qed
  have "(\<exists>kvs'. app_tags_cache st' = JObj kvs' \<and> map_of kvs' pkg = Some t) \<and>
        (\<forall>n. Call_generate_content n pkg \<notin> set (new_events st st'))"
  proof (cases r2)
    case (Inl e)
    with rs p have s: "st' = st2" by (simp add: process_app_def st1_def)
    show ?thesis unfolding s n(2) n1 using mid by simp
  next
    case (Inr tg)
    with rs p have a: "after_tags env a tg st2 = (r, st')" by (simp add: process_app_def st1_def)
    note e = after_tags_effect [OF a]
    note k = new_events_append [OF n(1) e(3)]
    have "\<forall>n. Call_generate_content n pkg \<notin> set (new_events st2 st')"
      using e(4) by auto
    with mid show ?thesis unfolding k(2) n(2) n1 e(2) by simp
  qed
  then show "\<exists>kvs'. app_tags_cache st' = JObj kvs' \<and> map_of kvs' pkg = Some t"
    and "\<forall>n. Call_generate_content n pkg \<notin> set (new_events st st')"
    by simp_all
qed

lemma process_apps_cached:
  assumes "app_tags_cache st = JObj kvs" and "map_of kvs pkg = Some t"
    and "process_apps env apps st = (r, st')"
  shows "(\<exists>kvs'. app_tags_cache st' = JObj kvs' \<and> map_of kvs' pkg = Some t) \<and>
         (\<forall>n. Call_generate_content n pkg \<notin> set (new_events st st'))"
  using assms
proof (induction apps arbitrary: st kvs)
  case Nil
  then show ?case by simp
next
  case (Cons a rest)
  obtain r1 st1 where p: "process_app env a st = (r1, st1)"
    by (cases "process_app env a st")
  note g = process_app_general [OF p]
  note k = process_app_cached [OF Cons.prems(1,2) p]
  show ?case
  proof (cases r1)
    case (Some e)
    with p Cons.prems have s: "st' = st1" by simp
    show ?thesis unfolding s using k by simp
  next
    case None
    with p Cons.prems have q: "process_apps env rest st1 = (r, st')" by simp
    from k(1) obtain kvs1 where k1: "app_tags_cache st1 = JObj kvs1" "map_of kvs1 pkg = Some t"
      by auto
    note ih = Cons.IH [OF k1 q]
    note n = new_events_append [OF g(1) conjunct1 [OF process_apps_general [OF q]]]
    show ?thesis
      unfolding n(2) using ih k(2) by simp
  qed
qed

lemma new_events_emit_after:
  assumes "trace st' = trace st @ new_events st st'"
  shows "new_events st (emit ev st') = new_events st st' @ [ev]"
    and "trace (emit ev st') = trace st @ new_events st (emit ev st')"
proof -
  have "trace (emit ev st') = trace st' @ new_events st' (emit ev st')"
    by simp
  from new_events_append [OF assms this]
  show "new_events st (emit ev st') = new_events st st' @ [ev]"
    and "trace (emit ev st') = trace st @ new_events st (emit ev st')"
    by simp_all
qed

lemma save_cache_io_error:
  assumes "cache_write env (length (filter is_write (trace st))) \<noteq> WriteOk"
  shows "fst (save_cache env c st) = None"
    and "app_tags_cache (snd (save_cache env c st)) = app_tags_cache st"
    and "new_events st (snd (save_cache env c st)) = [Call_write c, Log L_cache_write_error]"
  using assms
  by (auto simp: save_cache_def Let_def new_events_def split: write_outcome.splits)

lemma save_cache_written:
  assumes "cache_write env (length (filter is_write (trace st))) = WriteOk"
    and "utf8_encode (json_dumps c) = Some bs"
  shows "save_cache env c st =
           (None, emit (Log L_cache_saved) ((emit (Call_write c) st)\<lparr>cache_file := FileBytes (map of_nat bs)\<rparr>))"
  using assms by (simp add: save_cache_def)

lemma process_app_miss:
  assumes c: "app_tags_cache st = JObj kvs" and k: "package a \<notin> set (map fst kvs)"
    and g: "get_app_description env (name a) (package a) (emit (Log (L_app (name a) (package a))) st) = (t, st2)"
    and s: "save_cache env (JObj (kvs @ [(package a, JStr t)]))
              (st2\<lparr>app_tags_cache := JObj (kvs @ [(package a, JStr t)])\<rparr>) = (r3, st3)"
  shows "process_app env a st =
           (case r3 of Some e \<Rightarrow> (Some e, st3) | None \<Rightarrow> after_tags env a (JStr t) st3)"
proof -
  have c1: "app_tags_cache (emit (Log (L_app (name a) (package a))) st) = JObj kvs"
    using c by simp
  from resolve_tags_miss [OF c1 k g] s show ?thesis
    by (cases r3) (simp_all add: process_app_def)
qed

text \<open>
  C10. An answer of the classifier that is empty once stripped gives the sentinel tag,
  the same value a failed call gives. On a cache miss the sentinel is then stored under
  the package, and the application is skipped: it adds no application, no vector and no
  call of the embedder.
\<close>

theorem blank_reply_is_sentinel:
  assumes c: "app_tags_cache st = JObj kvs" and k: "package a \<notin> set (map fst kvs)"
    and o: "generate_content env (length (filter is_generate (trace st))) (name a) (package a) =
              GenResponse (Some txt)"
    and b: "strip txt = []"
  shows "fst (get_app_description env (name a) (package a) st) = SENTINEL \<and>
         fst (get_app_description env (name a) (package a) st) =
           fst (get_app_description (env\<lparr>generate_content := (\<lambda>n x y. GenRaises)\<rparr>) (name a) (package a) st) \<and>
         app_tags_cache (snd (process_app env a st)) = JObj (kvs @ [(package a, JStr SENTINEL)]) \<and>
         processed_apps (snd (process_app env a st)) = processed_apps st \<and>
         app_vectors (snd (process_app env a st)) = app_vectors st \<and>
         filter is_embed (new_events st (snd (process_app env a st))) = []"
proof -
  define st1 where "st1 = emit (Log (L_app (name a) (package a))) st"
  define st2 where "st2 = emit (Call_generate_content (name a) (package a)) (emit (Log (L_api_call (name a))) st1)"
  define c' where "c' = JObj (kvs @ [(package a, JStr SENTINEL)])"
  have o1: "generate_content env (length (filter is_generate (trace st1))) (name a) (package a) =
              GenResponse (Some txt)"
    using o by (simp add: st1_def)
  have g: "get_app_description env (name a) (package a) st1 = (SENTINEL, st2)"
    unfolding st2_def by (rule get_app_description_blank [OF o1 b])
  obtain r3 st3 where s: "save_cache env c' (st2\<lparr>app_tags_cache := c'\<rparr>) = (r3, st3)"
    by (cases "save_cache env c' (st2\<lparr>app_tags_cache := c'\<rparr>)")
  note s1 = save_cache_effect [OF s]
  have p: "process_app env a st =
           (case r3 of Some e \<Rightarrow> (Some e, st3) | None \<Rightarrow> after_tags env a (JStr SENTINEL) st3)"
    using process_app_miss [OF c k g [unfolded st1_def] s [unfolded c'_def]] .
  have sn: "snd (process_app env a st) =
           (case r3 of Some e \<Rightarrow> st3 | None \<Rightarrow> emit (Log L_skip) (emit (Log (L_tags (JStr SENTINEL))) st3))"
    unfolding p by (cases r3) (simp_all add: after_tags_sentinel)
  have t2: "trace (st2\<lparr>app_tags_cache := c'\<rparr>) = trace st @ new_events st (st2\<lparr>app_tags_cache := c'\<rparr>)"
    by (simp add: st2_def st1_def new_events_def)
  note n = new_events_append [OF t2 s1(4)]
  have e2: "filter is_embed (new_events st (st2\<lparr>app_tags_cache := c'\<rparr>)) = []"
    by (simp add: st2_def st1_def new_events_def)
  have e3: "filter is_embed (new_events st st3) = []"
    unfolding n(2) using e2 no_calls_of_kind(2) [OF s1(5)] by simp
  have e4: "new_events st (emit (Log L_skip) (emit (Log (L_tags (JStr SENTINEL))) st3)) =
              new_events st st3 @ [Log (L_tags (JStr SENTINEL)), Log L_skip]"
    using new_events_emit_after [OF new_events_emit_after(2) [OF n(1)]] new_events_emit_after(1) [OF n(1)]
    by simp
  have "fst (get_app_description env (name a) (package a) st) = SENTINEL"
    using get_app_description_blank [OF o b] by simp
  moreover have "fst (get_app_description (env\<lparr>generate_content := (\<lambda>n x y. GenRaises)\<rparr>) (name a) (package a) st) = SENTINEL"
    by (simp add: get_app_description_def)
  moreover have "app_tags_cache (snd (process_app env a st)) = c'"
    unfolding sn using s1(1) by (cases r3) simp_all
  moreover have "processed_apps (snd (process_app env a st)) = processed_apps st"
    unfolding sn using s1(2) by (cases r3) (simp_all add: st2_def st1_def)
  moreover have "app_vectors (snd (process_app env a st)) = app_vectors st"
    unfolding sn using s1(3) by (cases r3) (simp_all add: st2_def st1_def)
  moreover have "filter is_embed (new_events st (snd (process_app env a st))) = []"
    unfolding sn using e3 e4 by (cases r3) simp_all
  ultimately show ?thesis
    unfolding c'_def by simp
qed

theorem blank_reply_is_sentinel_witness:
  "fst (get_app_description blank_env (name app_ab) (package app_ab) demo_start) = SENTINEL \<and>
   app_tags_cache (snd (process_app blank_env app_ab demo_start)) = JObj [(package app_ab, JStr SENTINEL)] \<and>
   processed_apps (snd (process_app blank_env app_ab demo_start)) = [] \<and>
   app_vectors (snd (process_app blank_env app_ab demo_start)) = [] \<and>
   filter is_embed (new_events demo_start (snd (process_app blank_env app_ab demo_start))) = []"
proof -
  have c: "app_tags_cache demo_start = JObj []" and k: "package app_ab \<notin> set (map fst [])"
    by (simp_all add: demo_start_def)
  have o: "generate_content blank_env (length (filter is_generate (trace demo_start))) (name app_ab) (package app_ab) =
              GenResponse (Some (ascii ''  ''))"
    by (simp add: blank_env_def demo_start_def)
  have b: "strip (ascii ''  '') = []"
    by (simp add: strip_def ascii_def py_isspace_def)
  from blank_reply_is_sentinel [OF c k o b] show ?thesis
    by (simp add: demo_start_def)
qed

text \<open>
  C1. When the package of an application is a key of the cache (a \<open>dict\<close>), the loop
  body takes the cached value as the tag, whatever it is, and goes on from line 256:
  it calls no classifier and leaves the cache as it was. If the value is the sentinel
  the application is skipped. However the loop continues from a state in which a
  package is cached, the package keeps its value and the classifier is never called
  for it.
\<close>

theorem cache_hit_skips_classifier:
  assumes c: "app_tags_cache st = JObj kvs" and k: "package a \<in> set (map fst kvs)"
  shows "\<exists>t. map_of kvs (package a) = Some t \<and>
           process_app env a st =
             after_tags env a t (emit (Log L_cache_hit) (emit (Log (L_app (name a) (package a))) st)) \<and>
           (t = JStr SENTINEL \<longrightarrow>
              process_app env a st =
                (None, emit (Log L_skip) (emit (Log (L_tags t))
                   (emit (Log L_cache_hit) (emit (Log (L_app (name a) (package a))) st))))) \<and>
           filter is_generate (new_events st (snd (process_app env a st))) = [] \<and>
           app_tags_cache (snd (process_app env a st)) = JObj kvs \<and>
           (\<forall>apps r st'. process_apps env apps st = (r, st') \<longrightarrow>
              (\<exists>kvs'. app_tags_cache st' = JObj kvs' \<and> map_of kvs' (package a) = Some t) \<and>
              (\<forall>n. Call_generate_content n (package a) \<notin> set (new_events st st')))"
proof -
  from key_in_dict [OF k] obtain t where t: "map_of kvs (package a) = Some t" ..
  define st2 where "st2 = emit (Log L_cache_hit) (emit (Log (L_app (name a) (package a))) st)"
  have p: "process_app env a st = after_tags env a t st2"
    unfolding st2_def by (rule process_app_hit [OF c t])
  obtain r st' where a: "after_tags env a t st2 = (r, st')"
    by (cases "after_tags env a t st2")
  note e = after_tags_effect [OF a]
  note h = after_tags_general [OF a]
  have t2: "trace st2 = trace st @ new_events st st2"
    by (simp add: st2_def new_events_def)
  note n = new_events_append [OF t2 e(3)]
  have g: "filter is_generate (new_events st st') = []"
    unfolding n(2) using h(2) by (simp add: st2_def)
  have cc: "app_tags_cache st' = JObj kvs"
    using e(2) c by (simp add: st2_def)
  have s: "t = JStr SENTINEL \<longrightarrow> process_app env a st = (None, emit (Log L_skip) (emit (Log (L_tags t)) st2))"
    unfolding p by (simp add: after_tags_sentinel)
  have run: "\<forall>apps r st'. process_apps env apps st = (r, st') \<longrightarrow>
              (\<exists>kvs'. app_tags_cache st' = JObj kvs' \<and> map_of kvs' (package a) = Some t) \<and>
              (\<forall>n. Call_generate_content n (package a) \<notin> set (new_events st st'))"
    using process_apps_cached [OF c t] by simp
  have "map_of kvs (package a) = Some t \<and>
           process_app env a st = after_tags env a t st2 \<and>
           (t = JStr SENTINEL \<longrightarrow>
              process_app env a st = (None, emit (Log L_skip) (emit (Log (L_tags t)) st2))) \<and>
           filter is_generate (new_events st (snd (process_app env a st))) = [] \<and>
           app_tags_cache (snd (process_app env a st)) = JObj kvs \<and>
           (\<forall>apps r st'. process_apps env apps st = (r, st') \<longrightarrow>
              (\<exists>kvs'. app_tags_cache st' = JObj kvs' \<and> map_of kvs' (package a) = Some t) \<and>
              (\<forall>n. Call_generate_content n (package a) \<notin> set (new_events st st')))"
    using t p s run g cc unfolding p a by simp
  then show ?thesis
    unfolding st2_def by (rule exI)
qed

theorem cache_hit_skips_classifier_witness:
  "process_app demo_env app_ab cached_state =
     (None, emit (Log L_skip) (emit (Log (L_tags (JStr SENTINEL)))
        (emit (Log L_cache_hit) (emit (Log (L_app (name app_ab) (package app_ab))) cached_state)))) \<and>
   filter is_generate (new_events cached_state (snd (process_app demo_env app_ab cached_state))) = [] \<and>
   app_tags_cache (snd (process_app demo_env app_ab cached_state)) = JObj [(ascii ''a.b'', JStr SENTINEL)] \<and>
   (\<forall>n. Call_generate_content n (package app_ab) \<notin>
          set (new_events cached_state (snd (process_apps demo_env [app_ab, app_cd, app_ab] cached_state))))"
proof -
  have c: "app_tags_cache cached_state = JObj [(ascii ''a.b'', JStr SENTINEL)]"
    by (simp add: cached_state_def)
  have k: "package app_ab \<in> set (map fst [(ascii ''a.b'', JStr SENTINEL)])"
    by (simp add: app_ab_def)
  from cache_hit_skips_classifier [OF c k, of demo_env] obtain t where
    t: "map_of [(ascii ''a.b'', JStr SENTINEL)] (package app_ab) = Some t"
    and s: "t = JStr SENTINEL \<longrightarrow>
              process_app demo_env app_ab cached_state =
                (None, emit (Log L_skip) (emit (Log (L_tags t))
                   (emit (Log L_cache_hit) (emit (Log (L_app (name app_ab) (package app_ab))) cached_state))))"
    and g: "filter is_generate (new_events cached_state (snd (process_app demo_env app_ab cached_state))) = []"
    and cc: "app_tags_cache (snd (process_app demo_env app_ab cached_state)) = JObj [(ascii ''a.b'', JStr SENTINEL)]"
    and run: "\<forall>apps r st'. process_apps demo_env apps cached_state = (r, st') \<longrightarrow>
              (\<exists>kvs'. app_tags_cache st' = JObj kvs' \<and> map_of kvs' (package app_ab) = Some t) \<and>
              (\<forall>n. Call_generate_content n (package app_ab) \<notin> set (new_events cached_state st'))"
    by blast
  from t have ts: "t = JStr SENTINEL"
    by (simp add: app_ab_def)
  have "\<forall>n. Call_generate_content n (package app_ab) \<notin>
          set (new_events cached_state (snd (process_apps demo_env [app_ab, app_cd, app_ab] cached_state)))"
    using run [rule_format, of "[app_ab, app_cd, app_ab]" "fst (process_apps demo_env [app_ab, app_cd, app_ab] cached_state)"
        "snd (process_apps demo_env [app_ab, app_cd, app_ab] cached_state)"]
    by simp
  with s ts g cc show ?thesis by simp
qed

lemma load_cache_general:
  assumes "load_cache st = (r, st')"
  shows "trace st' = trace st @ new_events st st'"
    and "set (new_events st st') \<subseteq> range Log"
    and "cache_file st' = cache_file st" and "processed_apps st' = processed_apps st"
    and "app_vectors st' = app_vectors st"
  using assms
  by (auto simp: load_cache_def new_events_def split: file_state.splits option.splits if_splits)

lemma loop_without_fit_predict:
  assumes l: "load_cache (emit (Log L_start) (emit (Log (L_extracted n)) (emit (Log L_setup_ok) st))) =
     (Inr loaded, st3)"
    and p: "process_apps env apps (st3\<lparr>app_tags_cache := loaded, processed_apps := [], app_vectors := []\<rparr>) =
     (r, st4)"
  shows "trace st4 = trace st @ new_events st st4"
    and "filter is_fit_predict (new_events st st4) = []"
    and "length (processed_apps st4) = length (app_vectors st4)"
    and "\<forall>p\<in>set (processed_apps st4). tags p \<noteq> JStr SENTINEL"
proof -
  define st2 where "st2 = emit (Log L_start) (emit (Log (L_extracted n)) (emit (Log L_setup_ok) st))"
  define st3' where "st3' = st3\<lparr>app_tags_cache := loaded, processed_apps := [], app_vectors := []\<rparr>"
  have t2: "trace st2 = trace st @ new_events st st2"
    and n2: "new_events st st2 = [Log L_setup_ok, Log (L_extracted n), Log L_start]"
    by (simp_all add: st2_def)
  note l1 = load_cache_general [OF l [folded st2_def]]
  have t3: "trace st3' = trace st2 @ new_events st2 st3'"
    and n3: "new_events st2 st3' = new_events st2 st3"
    using l1(1) by (simp_all add: st3'_def new_events_def [of st2])
  note a = new_events_append [OF t2 t3]
  note g = process_apps_general [OF p [folded st3'_def]]
  note b = new_events_append [OF a(1) conjunct1 [OF g]]
  show "trace st4 = trace st @ new_events st st4"
    by (rule b(1))
  show "filter is_fit_predict (new_events st st4) = []"
    unfolding b(2) a(2) n2 n3 using g no_calls_of_kind(4) [of "new_events st2 st3" "{}"] l1(2)
    by simp
  show "length (processed_apps st4) = length (app_vectors st4)"
    using g by (simp add: st3'_def)
  show "\<forall>p\<in>set (processed_apps st4). tags p \<noteq> JStr SENTINEL"
    using g by (simp add: st3'_def)
qed

text \<open>
  C5. When the loop has run over every extracted application without an exception and
  no vector was collected, \<open>main\<close> prints the message of line 272 and returns. No
  \<open>fit_predict\<close> was called in the whole run, and the list of processed applications
  is empty as well, so no grouping is built: the message is the last thing the run does.
\<close>

theorem no_vectors_no_clustering:
  assumes "setup_gemini env = None" and "extract_apps_from_db (db env) = Inr apps" and "apps \<noteq> []"
    and "load_cache (emit (Log L_start) (emit (Log (L_extracted (length apps))) (emit (Log L_setup_ok) st))) =
           (Inr loaded, st3)"
    and "process_apps env apps (st3\<lparr>app_tags_cache := loaded, processed_apps := [], app_vectors := []\<rparr>) =
           (None, st4)"
    and "app_vectors st4 = []"
  shows "main env st = (None, emit (Log L_no_vectors) st4) \<and>
         filter is_fit_predict (new_events st (snd (main env st))) = [] \<and>
         processed_apps (snd (main env st)) = [] \<and>
         exit_status (main env st) = 0"
proof -
  have m: "main env st = (None, emit (Log L_no_vectors) st4)"
    using assms by (rule main_no_vectors)
  note w = loop_without_fit_predict [OF assms(4) assms(5)]
  have "filter is_fit_predict (new_events st (emit (Log L_no_vectors) st4)) = []"
    unfolding new_events_emit_after(1) [OF w(1)] using w(2) by simp
  moreover have "processed_apps st4 = []"
    using w(3) assms(6) by simp
  ultimately show ?thesis
    unfolding m by (simp add: exit_status_def)
qed

lemma demo_rows_extracted: "extract_rows demo_rows [] = [app_ab, app_cd]"
  by (simp add: demo_rows_def app_ab_def app_cd_def ascii_def match_at_def startswith_def
        MARKER_def SLASH_def group_lengths_def)

lemma demo_loop_start:
  "load_cache (emit (Log L_start) (emit (Log (L_extracted (length [app_ab, app_cd])))
       (emit (Log L_setup_ok) (initial FileAbsent)))) =
     (Inr (JObj []), emit (Log L_start) (emit (Log (L_extracted 2)) (emit (Log L_setup_ok) (initial FileAbsent))))"
  "(emit (Log L_start) (emit (Log (L_extracted 2)) (emit (Log L_setup_ok) (initial FileAbsent))))
     \<lparr>app_tags_cache := JObj [], processed_apps := [], app_vectors := []\<rparr> = demo_start"
  by (simp_all add: load_cache_def initial_def emit_def demo_start_def)

lemma failing_run:
  "fst (process_apps failing_env [app_ab, app_cd] demo_start) = None"
  "app_vectors (snd (process_apps failing_env [app_ab, app_cd] demo_start)) = []"
  by (simp_all add: eval_defs failing_env_def demo_start_def)

theorem no_vectors_no_clustering_witness:
  "last (trace (snd (main failing_env (initial FileAbsent)))) = Log L_no_vectors \<and>
   filter is_fit_predict (new_events (initial FileAbsent) (snd (main failing_env (initial FileAbsent)))) = [] \<and>
   processed_apps (snd (main failing_env (initial FileAbsent))) = [] \<and>
   exit_status (main failing_env (initial FileAbsent)) = 0"
proof -
  have 1: "setup_gemini failing_env = None"
    by (simp add: setup_gemini_def failing_env_def demo_env_def ascii_def)
  have 2: "extract_apps_from_db (db failing_env) = Inr [app_ab, app_cd]"
    by (simp add: extract_apps_from_db_def failing_env_def demo_env_def demo_rows_extracted)
  have 3: "[app_ab, app_cd] \<noteq> []"
    by simp
  obtain st4 where 5: "process_apps failing_env [app_ab, app_cd]
      ((emit (Log L_start) (emit (Log (L_extracted 2)) (emit (Log L_setup_ok) (initial FileAbsent))))
         \<lparr>app_tags_cache := JObj [], processed_apps := [], app_vectors := []\<rparr>) = (None, st4)"
    and 6: "app_vectors st4 = []"
    unfolding demo_loop_start(2) using failing_run
    by (cases "process_apps failing_env [app_ab, app_cd] demo_start") simp
  from no_vectors_no_clustering [OF 1 2 3 demo_loop_start(1) 5 6]
  show ?thesis by (elim conjE) simp
qed

lemma setup_gemini_fails:
  "GOOGLE_API_KEY env = None \<or> GOOGLE_API_KEY env = Some [] \<Longrightarrow> setup_gemini env = Some ValueError"
  by (auto simp: setup_gemini_def)

text \<open>
  C9, as the code has it. Each fatal condition ends the run with one message, and \<open>main\<close>
  returns: a missing or empty credential (the \<open>ValueError\<close> of \<open>setup_gemini\<close>), a
  missing database file (\<open>FileNotFoundError\<close>), a failing database call
  (\<open>sqlite3.Error\<close>), no application extracted, and no vector after the loop. Since
  \<open>main\<close> returns and the script calls nothing after it, the exit status is 0 in each
  case; no path of the program sets another status.
\<close>

theorem fatal_conditions_return_normally:
  "(GOOGLE_API_KEY env = None \<or> GOOGLE_API_KEY env = Some [] \<longrightarrow>
      main env st = (None, emit (Log (L_exception ValueError)) st) \<and> exit_status (main env st) = 0) \<and>
   (setup_gemini env = None \<and> db env = DbMissing \<longrightarrow>
      main env st = (None, emit (Log (L_exception FileNotFoundError)) (emit (Log L_setup_ok) st)) \<and>
      exit_status (main env st) = 0) \<and>
   (\<forall>msg. setup_gemini env = None \<and> db env = DbFails msg \<longrightarrow>
      main env st = (None, emit (Log (L_exception (Sqlite3Error msg))) (emit (Log L_setup_ok) st)) \<and>
      exit_status (main env st) = 0) \<and>
   (setup_gemini env = None \<and> extract_apps_from_db (db env) = Inr [] \<longrightarrow>
      main env st = (None, emit (Log L_no_apps) (emit (Log (L_extracted 0)) (emit (Log L_setup_ok) st))) \<and>
      exit_status (main env st) = 0) \<and>
   (\<forall>apps loaded st3 st4.
      setup_gemini env = None \<and> extract_apps_from_db (db env) = Inr apps \<and> apps \<noteq> [] \<and>
      load_cache (emit (Log L_start) (emit (Log (L_extracted (length apps))) (emit (Log L_setup_ok) st))) =
        (Inr loaded, st3) \<and>
      process_apps env apps (st3\<lparr>app_tags_cache := loaded, processed_apps := [], app_vectors := []\<rparr>) =
        (None, st4) \<and>
      app_vectors st4 = [] \<longrightarrow>
      main env st = (None, emit (Log L_no_vectors) st4) \<and> exit_status (main env st) = 0)"
proof (intro conjI allI impI)
  assume "GOOGLE_API_KEY env = None \<or> GOOGLE_API_KEY env = Some []"
  from main_no_credential [OF setup_gemini_fails [OF this]]
  show "main env st = (None, emit (Log (L_exception ValueError)) st)"
    and "exit_status (main env st) = 0"
    by (simp_all add: exit_status_def)
next
  assume h: "setup_gemini env = None \<and> db env = DbMissing"
  then have "extract_apps_from_db (db env) = Inl FileNotFoundError"
    by (simp add: extract_apps_from_db_def)
  from main_no_source [OF conjunct1 [OF h] this]
  show "main env st = (None, emit (Log (L_exception FileNotFoundError)) (emit (Log L_setup_ok) st))"
    and "exit_status (main env st) = 0"
    by (simp_all add: exit_status_def)
next
  fix msg
  assume h: "setup_gemini env = None \<and> db env = DbFails msg"
  then have "extract_apps_from_db (db env) = Inl (Sqlite3Error msg)"
    by (simp add: extract_apps_from_db_def)
  from main_no_source [OF conjunct1 [OF h] this]
  show "main env st = (None, emit (Log (L_exception (Sqlite3Error msg))) (emit (Log L_setup_ok) st))"
    and "exit_status (main env st) = 0"
    by (simp_all add: exit_status_def)
next
  assume h: "setup_gemini env = None \<and> extract_apps_from_db (db env) = Inr []"
  from main_no_apps [OF conjunct1 [OF h] conjunct2 [OF h]]
  show "main env st = (None, emit (Log L_no_apps) (emit (Log (L_extracted 0)) (emit (Log L_setup_ok) st)))"
    and "exit_status (main env st) = 0"
    by (simp_all add: exit_status_def)
next
  fix apps loaded st3 st4
  assume h: "setup_gemini env = None \<and> extract_apps_from_db (db env) = Inr apps \<and> apps \<noteq> [] \<and>
      load_cache (emit (Log L_start) (emit (Log (L_extracted (length apps))) (emit (Log L_setup_ok) st))) =
        (Inr loaded, st3) \<and>
      process_apps env apps (st3\<lparr>app_tags_cache := loaded, processed_apps := [], app_vectors := []\<rparr>) =
        (None, st4) \<and>
      app_vectors st4 = []"
  then have a: "setup_gemini env = None" "extract_apps_from_db (db env) = Inr apps" "apps \<noteq> []"
      "load_cache (emit (Log L_start) (emit (Log (L_extracted (length apps))) (emit (Log L_setup_ok) st))) =
        (Inr loaded, st3)"
      "process_apps env apps (st3\<lparr>app_tags_cache := loaded, processed_apps := [], app_vectors := []\<rparr>) =
        (None, st4)"
      "app_vectors st4 = []"
    by simp_all
  have "main env st = (None, emit (Log L_no_vectors) st4)"
    by (rule main_no_vectors [OF a])
  then show "main env st = (None, emit (Log L_no_vectors) st4)"
    and "exit_status (main env st) = 0"
    by (simp_all add: exit_status_def)
qed

theorem fatal_conditions_return_normally_witness:
  "main no_key_env (initial FileAbsent) = (None, emit (Log (L_exception ValueError)) (initial FileAbsent)) \<and>
   exit_status (main no_key_env (initial FileAbsent)) = 0 \<and>
   exit_status (main no_db_env (initial FileAbsent)) = 0 \<and>
   exit_status (main bad_db_env (initial FileAbsent)) = 0 \<and>
   exit_status (main empty_db_env (initial FileAbsent)) = 0"
proof -
  have 1: "GOOGLE_API_KEY no_key_env = None \<or> GOOGLE_API_KEY no_key_env = Some []"
    by (simp add: no_key_env_def)
  have 2: "setup_gemini no_db_env = None \<and> db no_db_env = DbMissing"
    by (simp add: no_db_env_def demo_env_def setup_gemini_def ascii_def)
  have 3: "setup_gemini bad_db_env = None \<and> db bad_db_env = DbFails (ascii ''no such table: favorites'')"
    by (simp add: bad_db_env_def demo_env_def setup_gemini_def ascii_def)
  have 4: "setup_gemini empty_db_env = None \<and> extract_apps_from_db (db empty_db_env) = Inr []"
    by (simp add: empty_db_env_def demo_env_def setup_gemini_def ascii_def extract_apps_from_db_def)
  note a = fatal_conditions_return_normally [of no_key_env "initial FileAbsent"]
  note b = fatal_conditions_return_normally [of no_db_env "initial FileAbsent"]
  note c = fatal_conditions_return_normally [of bad_db_env "initial FileAbsent"]
  note d = fatal_conditions_return_normally [of empty_db_env "initial FileAbsent"]
  from a 1 have "main no_key_env (initial FileAbsent) = (None, emit (Log (L_exception ValueError)) (initial FileAbsent))"
    and "exit_status (main no_key_env (initial FileAbsent)) = 0"
    by blast+
  moreover from b 2 have "exit_status (main no_db_env (initial FileAbsent)) = 0"
    by blast
  moreover from c 3 have "exit_status (main bad_db_env (initial FileAbsent)) = 0"
    by blast
  moreover from d 4 have "exit_status (main empty_db_env (initial FileAbsent)) = 0"
    by blast
  ultimately show ?thesis by simp
qed

text \<open>
  C9 as stated fails: without a credential the run ends with exit status 0, not with
  a non-zero status.
\<close>

theorem missing_credential_exit_status_zero:
  "GOOGLE_API_KEY no_key_env = None \<and> exit_status (main no_key_env (initial FileAbsent)) = 0"
  by (simp add: no_key_env_def main_def setup_gemini_def exit_status_def)

section \<open>Skipped applications and the groups\<close>

lemma dict_set_count:
  "map_of g k = Some m \<Longrightarrow>
   count_list (group_members (dict_set g k (m @ [n]))) x =
     count_list (group_members g) x + (if n = x then 1 else 0)"
proof (induction g)
  case Nil
  then show ?case by (simp add: group_members_def)
next
  case (Cons p g)
  obtain k' v' where p: "p = (k', v')"
    by (cases p)
  show ?case
  proof (cases "k' = k")
    case True
    with Cons.prems p have "v' = m" by simp
    with True p show ?thesis by (simp add: group_members_def)
  next
    case False
    with Cons.prems p have "map_of g k = Some m" by simp
    from Cons.IH [OF this] False p show ?thesis by (simp add: group_members_def)
  qed
qed

lemma add_to_group_count:
  "count_list (group_members (add_to_group g k n)) x =
     count_list (group_members g) x + (if n = x then 1 else 0)"
proof (cases "map_of g k")
  case None
  then have "k \<notin> set (map fst g)"
    by (simp add: map_of_eq_None_iff)
  from dict_set_new [OF this] None show ?thesis
    by (simp add: add_to_group_def group_members_def)
next
  case (Some m)
  from dict_set_count [OF this] Some show ?thesis
    by (simp add: add_to_group_def)
qed

lemma build_groups_count:
  "build_groups apps i clusters g = Inr g' \<Longrightarrow>
   count_list (group_members g') x = count_list (group_members g) x + count_list (map name apps) x"
proof (induction apps arbitrary: i g)
  case Nil
  then show ?case by simp
next
  case (Cons a rest)
  from Cons.prems have i: "i < length clusters"
    by (simp split: if_splits)
  define k where "k = (if clusters ! i = - 1 then Outliers else Group (clusters ! i))"
  from Cons.prems i have "build_groups rest (Suc i) clusters (add_to_group g k (name a)) = Inr g'"
    by (simp add: Let_def k_def)
  from Cons.IH [OF this] show ?case
    by (simp add: add_to_group_count)
qed

lemma process_app_sentinel:
  assumes r: "resolve_tags env a (emit (Log (L_app (name a) (package a))) st) = (Inr (JStr SENTINEL), st2)"
  shows "process_app env a st = (None, emit (Log L_skip) (emit (Log (L_tags (JStr SENTINEL))) st2))"
    and "processed_apps (snd (process_app env a st)) = processed_apps st"
    and "app_vectors (snd (process_app env a st)) = app_vectors st"
    and "filter is_embed (new_events st (snd (process_app env a st))) = []"
proof -
  define st1 where "st1 = emit (Log (L_app (name a) (package a))) st"
  note g = resolve_tags_general [OF r [folded st1_def]]
  show p: "process_app env a st = (None, emit (Log L_skip) (emit (Log (L_tags (JStr SENTINEL))) st2))"
    using r by (simp add: process_app_def after_tags_sentinel)
  have t1: "trace st1 = trace st @ new_events st st1"
    by (simp add: st1_def)
  note n = new_events_append [OF t1 g(3)]
  note e1 = new_events_emit_after [OF n(1), of "Log (L_tags (JStr SENTINEL))"]
  note e2 = new_events_emit_after [OF e1(2), of "Log L_skip"]
  show "processed_apps (snd (process_app env a st)) = processed_apps st"
    unfolding p using g(1) by (simp add: st1_def)
  show "app_vectors (snd (process_app env a st)) = app_vectors st"
    unfolding p using g(2) by (simp add: st1_def)
  show "filter is_embed (new_events st (snd (process_app env a st))) = []"
    unfolding p using g(5) by (simp add: e2(1) e1(1) n(2) st1_def)
qed

text \<open>
  C2. An application whose tag (from the cache or from the classifier) is the sentinel
  is skipped: the step calls no embedder and adds no application and no vector. Every
  processed application therefore has a tag other than the sentinel. The final groups
  hold one entry for each processed application and no other entry: every name occurs
  in the groups as often as among the processed applications. So a skipped application
  has no entry in any group.
\<close>

theorem sentinel_app_is_skipped:
  "(\<forall>st2. resolve_tags env a (emit (Log (L_app (name a) (package a))) st) = (Inr (JStr SENTINEL), st2) \<longrightarrow>
      process_app env a st = (None, emit (Log L_skip) (emit (Log (L_tags (JStr SENTINEL))) st2)) \<and>
      processed_apps (snd (process_app env a st)) = processed_apps st \<and>
      app_vectors (snd (process_app env a st)) = app_vectors st \<and>
      filter is_embed (new_events st (snd (process_app env a st))) = []) \<and>
   (\<forall>apps loaded st3 r st4 clusters g.
      load_cache (emit (Log L_start) (emit (Log (L_extracted (length apps))) (emit (Log L_setup_ok) st))) =
        (Inr loaded, st3) \<and>
      process_apps env apps (st3\<lparr>app_tags_cache := loaded, processed_apps := [], app_vectors := []\<rparr>) =
        (r, st4) \<and>
      build_groups (processed_apps st4) 0 clusters [] = Inr g \<longrightarrow>
      (\<forall>p\<in>set (processed_apps st4). tags p \<noteq> JStr SENTINEL) \<and>
      (\<forall>x. count_list (group_members g) x = count_list (map name (processed_apps st4)) x))"
proof -
  have 1: "\<forall>st2. resolve_tags env a (emit (Log (L_app (name a) (package a))) st) = (Inr (JStr SENTINEL), st2) \<longrightarrow>
      process_app env a st = (None, emit (Log L_skip) (emit (Log (L_tags (JStr SENTINEL))) st2)) \<and>
      processed_apps (snd (process_app env a st)) = processed_apps st \<and>
      app_vectors (snd (process_app env a st)) = app_vectors st \<and>
      filter is_embed (new_events st (snd (process_app env a st))) = []"
  proof (intro allI impI)
    fix st2
    assume r: "resolve_tags env a (emit (Log (L_app (name a) (package a))) st) = (Inr (JStr SENTINEL), st2)"
    note s = process_app_sentinel [OF r]
    show "process_app env a st = (None, emit (Log L_skip) (emit (Log (L_tags (JStr SENTINEL))) st2)) \<and>
      processed_apps (snd (process_app env a st)) = processed_apps st \<and>
      app_vectors (snd (process_app env a st)) = app_vectors st \<and>
      filter is_embed (new_events st (snd (process_app env a st))) = []"
      using s by simp
  qed
  have 2: "\<forall>apps loaded st3 r st4 clusters g.
      load_cache (emit (Log L_start) (emit (Log (L_extracted (length apps))) (emit (Log L_setup_ok) st))) =
        (Inr loaded, st3) \<and>
      process_apps env apps (st3\<lparr>app_tags_cache := loaded, processed_apps := [], app_vectors := []\<rparr>) =
        (r, st4) \<and>
      build_groups (processed_apps st4) 0 clusters [] = Inr g \<longrightarrow>
      (\<forall>p\<in>set (processed_apps st4). tags p \<noteq> JStr SENTINEL) \<and>
      (\<forall>x. count_list (group_members g) x = count_list (map name (processed_apps st4)) x)"
  proof (intro allI impI)
    fix apps loaded st3 r st4 clusters g
    assume h: "load_cache (emit (Log L_start) (emit (Log (L_extracted (length apps))) (emit (Log L_setup_ok) st))) =
        (Inr loaded, st3) \<and>
      process_apps env apps (st3\<lparr>app_tags_cache := loaded, processed_apps := [], app_vectors := []\<rparr>) =
        (r, st4) \<and>
      build_groups (processed_apps st4) 0 clusters [] = Inr g"
    note w = loop_without_fit_predict [OF conjunct1 [OF h] conjunct1 [OF conjunct2 [OF h]]]
    have "\<forall>x. count_list (group_members g) x = count_list (map name (processed_apps st4)) x"
      using build_groups_count [OF conjunct2 [OF conjunct2 [OF h]]]
      by (simp add: group_members_def)
    with w(4) show "(\<forall>p\<in>set (processed_apps st4). tags p \<noteq> JStr SENTINEL) \<and>
      (\<forall>x. count_list (group_members g) x = count_list (map name (processed_apps st4)) x)"
      by (rule conjI)
  qed
  from 1 2 show ?thesis
    by (rule conjI)
qed

lemma demo_resolve_ab:
  "fst (resolve_tags demo_env app_ab (emit (Log (L_app (name app_ab) (package app_ab))) demo_start)) =
     Inr (JStr SENTINEL)"
  by (simp add: eval_defs demo_start_def)

lemma demo_run:
  "fst (process_apps demo_env [app_ab, app_cd] demo_start) = None"
  "processed_apps (snd (process_apps demo_env [app_ab, app_cd] demo_start)) =
     [\<lparr>name = Some (ascii ''Cam''), package = ascii ''c.d'', tags = JStr (ascii ''photo'')\<rparr>]"
  "app_vectors (snd (process_apps demo_env [app_ab, app_cd] demo_start)) = [[1, 2]]"
  by (simp_all add: eval_defs demo_start_def)

lemma demo_groups:
  "build_groups [\<lparr>name = Some (ascii ''Cam''), package = ascii ''c.d'', tags = JStr (ascii ''photo'')\<rparr>]
     0 [- 1] [] = Inr [(Outliers, [Some (ascii ''Cam'')])]"
  by (simp add: add_to_group_def)

lemma demo_main:
  "last (trace (snd (main demo_env (initial FileAbsent)))) =
     Log (L_result [(Outliers, [Some (ascii ''Cam'')])])"
proof -
  obtain st4 where p: "process_apps demo_env [app_ab, app_cd] demo_start = (None, st4)"
    and pa: "processed_apps st4 =
       [\<lparr>name = Some (ascii ''Cam''), package = ascii ''c.d'', tags = JStr (ascii ''photo'')\<rparr>]"
    and av: "app_vectors st4 = [[1, 2]]"
    using demo_run by (cases "process_apps demo_env [app_ab, app_cd] demo_start") simp
  have 1: "setup_gemini demo_env = None"
    by (simp add: setup_gemini_def demo_env_def ascii_def)
  have 2: "extract_apps_from_db (db demo_env) = Inr [app_ab, app_cd]"
    by (simp add: extract_apps_from_db_def demo_env_def demo_rows_extracted)
  have 3: "\<And>m. fit_predict demo_env m = Inr (map (\<lambda>v. - 1) m)"
    by (simp add: demo_env_def)
  have l: "load_cache (emit (Log L_start) (emit (Log (L_extracted (Suc (Suc 0))))
       (emit (Log L_setup_ok) (initial FileAbsent)))) =
     (Inr (JObj []), emit (Log L_start) (emit (Log (L_extracted 2)) (emit (Log L_setup_ok) (initial FileAbsent))))"
    using demo_loop_start(1) by simp
  show ?thesis
    by (simp add: main_def 1 2 l demo_loop_start(2) p pa av 3 add_to_group_def Let_def
        del: process_apps.simps)
qed

theorem sentinel_app_is_skipped_witness:
  "processed_apps (snd (process_app demo_env app_ab demo_start)) = [] \<and>
   app_vectors (snd (process_app demo_env app_ab demo_start)) = [] \<and>
   filter is_embed (new_events demo_start (snd (process_app demo_env app_ab demo_start))) = [] \<and>
   map package (processed_apps (snd (process_apps demo_env [app_ab, app_cd] demo_start))) = [ascii ''c.d''] \<and>
   count_list (group_members [(Outliers, [Some (ascii ''Cam'')])]) (Some (ascii ''Cam'')) = 1"
proof -
  obtain st2 where r: "resolve_tags demo_env app_ab (emit (Log (L_app (name app_ab) (package app_ab))) demo_start) =
      (Inr (JStr SENTINEL), st2)"
    using demo_resolve_ab
    by (cases "resolve_tags demo_env app_ab (emit (Log (L_app (name app_ab) (package app_ab))) demo_start)") simp
  obtain r4 st4 where p: "process_apps demo_env [app_ab, app_cd]
      ((emit (Log L_start) (emit (Log (L_extracted 2)) (emit (Log L_setup_ok) (initial FileAbsent))))
         \<lparr>app_tags_cache := JObj [], processed_apps := [], app_vectors := []\<rparr>) = (r4, st4)"
    and s4: "st4 = snd (process_apps demo_env [app_ab, app_cd] demo_start)"
    unfolding demo_loop_start(2) by (cases "process_apps demo_env [app_ab, app_cd] demo_start") simp
  have g: "build_groups (processed_apps st4) 0 [- 1] [] = Inr [(Outliers, [Some (ascii ''Cam'')])]"
    unfolding s4 demo_run(2) by (rule demo_groups)
  note t = sentinel_app_is_skipped [of demo_env app_ab demo_start]
  note u = sentinel_app_is_skipped [of demo_env app_ab "initial FileAbsent"]
  from t r have "processed_apps (snd (process_app demo_env app_ab demo_start)) = processed_apps demo_start"
    and "app_vectors (snd (process_app demo_env app_ab demo_start)) = app_vectors demo_start"
    and "filter is_embed (new_events demo_start (snd (process_app demo_env app_ab demo_start))) = []"
    by blast+
  moreover
  have "\<forall>x. count_list (group_members [(Outliers, [Some (ascii ''Cam'')])]) x =
            count_list (map name (processed_apps st4)) x"
    using conjunct2 [OF u, rule_format, OF conjI [OF demo_loop_start(1) conjI [OF p g]]] by simp
  then have "count_list (group_members [(Outliers, [Some (ascii ''Cam'')])]) (Some (ascii ''Cam'')) =
            count_list (map name (processed_apps st4)) (Some (ascii ''Cam''))"
    by (rule spec)
  ultimately show ?thesis
    unfolding s4 demo_run(2) by (simp add: demo_start_def)
qed

section \<open>The extractor\<close>

lemma startswith_append: "startswith p (p @ s)"
  by (simp add: startswith_def)

lemma str_contains_iff: "str_contains p s \<longleftrightarrow> (\<exists>i\<le>length s. startswith p (drop i s))"
proof (induction s)
  case Nil
  then show ?case by simp
next
  case (Cons c s)
  show ?case
  proof
    assume "str_contains p (c # s)"
    then consider "startswith p (c # s)" | "str_contains p s" by auto
    then show "\<exists>i\<le>length (c # s). startswith p (drop i (c # s))"
    proof cases
      case 1
      then have "startswith p (drop 0 (c # s))" by simp
      then show ?thesis by blast
    next
      case 2
      with Cons.IH obtain i where "i \<le> length s" "startswith p (drop i s)" by auto
      then have "Suc i \<le> length (c # s) \<and> startswith p (drop (Suc i) (c # s))" by simp
      then show ?thesis by blast
    qed
  next
    assume "\<exists>i\<le>length (c # s). startswith p (drop i (c # s))"
    then obtain i where i: "i \<le> length (c # s)" "startswith p (drop i (c # s))" by auto
    show "str_contains p (c # s)"
    proof (cases i)
      case 0
      with i show ?thesis by simp
    next
      case (Suc j)
      with i have "j \<le> length s \<and> startswith p (drop j s)" by simp
      with Cons.IH show ?thesis by auto
    qed
  qed
qed

lemma rev_upt_Suc: "0 < n \<Longrightarrow> rev [1 ..< Suc n] = n # rev [1 ..< n]"
  by (cases n) simp_all

lemma match_at_Some:
  assumes m: "startswith MARKER s" and d: "drop (length MARKER) s = X @ SLASH # post"
    and x: "X \<noteq> []" and f: "SLASH \<notin> set X"
  shows "match_at s = Some X"
proof -
  have tw: "takeWhile (\<lambda>c. c \<noteq> SLASH) (X @ SLASH # post) = X"
    using f by (subst takeWhile_append2) auto
  have gl: "group_lengths (X @ SLASH # post) = length X # rev [1 ..< length X]"
    unfolding group_lengths_def tw using x by (cases X) simp_all
  show ?thesis
    using m d by (simp add: match_at_def gl nth_append)
qed

lemma match_at_marker: "match_at s = Some g \<Longrightarrow> startswith MARKER s"
  by (simp add: match_at_def split: if_splits)

lemma pattern_search_here: "match_at s = Some g \<Longrightarrow> pattern_search s = Some g"
  by (cases s) simp_all

lemma pattern_search_skip:
  "(\<forall>i<length pre. match_at (drop i (pre @ s)) = None) \<Longrightarrow> pattern_search (pre @ s) = pattern_search s"
proof (induction pre)
  case Nil
  then show ?case by simp
next
  case (Cons c pre)
  from Cons.prems have "match_at (drop 0 ((c # pre) @ s)) = None"
    by blast
  then have h: "match_at (c # pre @ s) = None" by simp
  have "\<forall>i<length pre. match_at (drop i (pre @ s)) = None"
  proof (intro allI impI)
    fix i assume "i < length pre"
    then have "Suc i < length (c # pre)" by simp
    with Cons.prems have "match_at (drop (Suc i) ((c # pre) @ s)) = None" by blast
    then show "match_at (drop i (pre @ s)) = None" by simp
  qed
  from Cons.IH [OF this] h show ?case by simp
qed

lemma pattern_search_marker: "pattern_search s = Some g \<Longrightarrow> str_contains MARKER s"
proof (induction s)
  case Nil
  then show ?case by (simp add: match_at_marker)
next
  case (Cons c s)
  show ?case
  proof (cases "match_at (c # s)")
    case None
    with Cons show ?thesis by simp
  next
    case (Some g')
    from match_at_marker [OF this] show ?thesis by simp
  qed
qed

lemma pattern_search_leftmost:
  assumes i: "intent = pre @ MARKER @ X @ SLASH # post" and x: "X \<noteq> []" and f: "SLASH \<notin> set X"
    and l: "\<forall>i<length pre. match_at (drop i intent) = None"
  shows "pattern_search intent = Some X" and "str_contains MARKER intent" and "intent \<noteq> []"
proof -
  have "match_at (MARKER @ X @ SLASH # post) = Some X"
    by (rule match_at_Some [OF startswith_append _ x f]) simp
  then have "pattern_search (MARKER @ X @ SLASH # post) = Some X"
    by (rule pattern_search_here)
  with pattern_search_skip [of pre "MARKER @ X @ SLASH # post"] l
  show s: "pattern_search intent = Some X"
    unfolding i by simp
  from pattern_search_marker [OF s] show "str_contains MARKER intent" .
  show "intent \<noteq> []"
    unfolding i by simp
qed

lemma extract_rows_acc: "set apps \<subseteq> set (extract_rows rows apps)"
  by (induction rows apps rule: extract_rows.induct) (auto split: option.splits)

lemma extract_rows_member:
  assumes "(app_name, Some intent) \<in> set rows" and "intent \<noteq> []" and "str_contains MARKER intent"
    and "pattern_search intent = Some X"
  shows "\<lparr>name = app_name, package = X\<rparr> \<in> set (extract_rows rows apps)"
  using assms
proof (induction rows apps rule: extract_rows.induct)
  case (1 apps)
  then show ?case by simp
next
  case (2 n rows apps)
  then show ?case by simp
next
  case (3 n s rows apps)
  show ?case
  proof (cases "(app_name, Some intent) = (n, Some s)")
    case True
    with "3.prems" have "extract_rows ((n, Some s) # rows) apps =
        extract_rows rows (apps @ [\<lparr>name = app_name, package = X\<rparr>])"
      by simp
    with extract_rows_acc [of "apps @ [\<lparr>name = app_name, package = X\<rparr>]" rows]
    show ?thesis by auto
  next
    case False
    with "3.prems" have m: "(app_name, Some intent) \<in> set rows" by auto
    show ?thesis
    proof (cases "s = [] \<or> \<not> str_contains MARKER s")
      case True
      with "3.IH"(1) [OF True m "3.prems"(2,3,4)] show ?thesis by simp
    next
      case f: False
      show ?thesis
      proof (cases "pattern_search s")
        case None
        with "3.IH"(2) [OF f None m "3.prems"(2,3,4)] f show ?thesis by simp
      next
        case (Some p)
        with "3.IH"(3) [OF f Some m "3.prems"(2,3,4)] f show ?thesis by simp
      qed
    qed
  qed
qed

lemma extract_rows_filter: "extract_rows (filter has_marker rows) apps = extract_rows rows apps"
  by (induction rows apps rule: extract_rows.induct) (auto simp: has_marker_def split: option.splits)

lemma printed_rows_eq:
  "printed_rows rows = map (\<lambda>a. Line_pair (package a) (name a)) (extract_rows rows [])"
proof -
  have "map (\<lambda>a. Line_pair (package a) (name a)) (extract_rows rows apps) =
        map (\<lambda>a. Line_pair (package a) (name a)) apps @ printed_rows rows" for apps
  proof (induction rows apps rule: extract_rows.induct)
    case (1 apps)
    then show ?case by simp
  next
    case (2 n rows apps)
    then show ?case by simp
  next
    case (3 n s rows apps)
    show ?case
    proof (cases "pattern_search s")
      case None
      with 3 show ?thesis by simp
    next
      case (Some p)
      from pattern_search_marker [OF this] have "str_contains MARKER s" .
      with 3 Some show ?thesis by (cases "s = []") auto
    qed
  qed
  from this [of "[]"] show ?thesis by simp
qed

lemma no_marker_no_match: "\<not> startswith MARKER s \<Longrightarrow> match_at s = None"
  by (simp add: match_at_def)

text \<open>
  C6. Take a row whose intent descriptor reads \<open>pre component=X/ post\<close>, where \<open>X\<close> is
  not empty and has no \<open>/\<close>, and where this \<open>component=\<close> is the first one in the
  descriptor. Then \<open>extract_apps_from_db\<close> returns a list that holds the record of
  the row's title and the package \<open>X\<close>, and \<open>extract_package_info\<close> prints the line
  of \<open>X\<close> and the title. Rows whose descriptor is \<open>NULL\<close>, empty or without
  \<open>component=\<close> do not count: without them the result is the same, and no error is
  raised for them.
\<close>

theorem extractor_yields_package:
  assumes r: "(app_name, Some intent) \<in> set rows"
    and i: "intent = pre @ MARKER @ X @ SLASH # post"
    and x: "X \<noteq> []" and f: "SLASH \<notin> set X"
    and first: "\<forall>i<length pre. \<not> startswith MARKER (drop i intent)"
  shows "(\<exists>apps. extract_apps_from_db (DbRows rows) = Inr apps \<and>
                \<lparr>name = app_name, package = X\<rparr> \<in> set apps) \<and>
         Line_pair X app_name \<in> set (extract_package_info (DbRows rows)) \<and>
         extract_apps_from_db (DbRows (filter has_marker rows)) = extract_apps_from_db (DbRows rows) \<and>
         (\<forall>r\<in>set rows. \<not> has_marker r \<longrightarrow> extract_apps_from_db (DbRows [r]) = Inr [])"
proof -
  have "\<forall>i<length pre. match_at (drop i intent) = None"
    using first no_marker_no_match by blast
  note s = pattern_search_leftmost [OF i x f this]
  have m: "\<lparr>name = app_name, package = X\<rparr> \<in> set (extract_rows rows [])"
    by (rule extract_rows_member [OF r s(3) s(2) s(1)])
  then have 1: "\<exists>apps. extract_apps_from_db (DbRows rows) = Inr apps \<and>
                \<lparr>name = app_name, package = X\<rparr> \<in> set apps"
    by (simp add: extract_apps_from_db_def)
  have "(\<lambda>a. Line_pair (package a) (name a)) \<lparr>name = app_name, package = X\<rparr>
          \<in> (\<lambda>a. Line_pair (package a) (name a)) ` set (extract_rows rows [])"
    using m by (rule imageI)
  then have "Line_pair X app_name \<in> set (printed_rows rows)"
    unfolding printed_rows_eq by simp
  then have 2: "Line_pair X app_name \<in> set (extract_package_info (DbRows rows))"
    by (simp add: extract_package_info_def)
  have 3: "extract_apps_from_db (DbRows (filter has_marker rows)) = extract_apps_from_db (DbRows rows)"
    by (simp add: extract_apps_from_db_def extract_rows_filter)
  have 4: "\<forall>r\<in>set rows. \<not> has_marker r \<longrightarrow> extract_apps_from_db (DbRows [r]) = Inr []"
  proof (intro ballI impI)
    fix r assume "\<not> has_marker r"
    then have "filter has_marker [r] = []" by simp
    with extract_rows_filter [of "[r]" "[]"] show "extract_apps_from_db (DbRows [r]) = Inr []"
      by (simp add: extract_apps_from_db_def)
  qed
  from 1 2 3 4 show ?thesis by simp
qed

theorem extractor_yields_package_witness:
  "(\<exists>apps. extract_apps_from_db (DbRows demo_rows) = Inr apps \<and>
           \<lparr>name = Some (ascii ''Cam''), package = ascii ''a.b''\<rparr> \<in> set apps) \<and>
   Line_pair (ascii ''a.b'') (Some (ascii ''Cam'')) \<in> set (extract_package_info (DbRows demo_rows)) \<and>
   extract_apps_from_db (DbRows [(Some (ascii ''Folder''), None)]) = Inr []"
proof -
  define intent where "intent = ascii ''#Intent;component=a.b/.Main;end''"
  have r: "(Some (ascii ''Cam''), Some intent) \<in> set demo_rows"
    by (simp add: demo_rows_def intent_def)
  have i: "intent = ascii ''#Intent;'' @ MARKER @ ascii ''a.b'' @ SLASH # ascii ''.Main;end''"
    by (simp add: intent_def ascii_def MARKER_def SLASH_def)
  have x: "ascii ''a.b'' \<noteq> []" and f: "SLASH \<notin> set (ascii ''a.b'')"
    by (simp_all add: ascii_def SLASH_def)
  have first: "\<forall>i<length (ascii ''#Intent;''). \<not> startswith MARKER (drop i intent)"
    by (simp add: intent_def ascii_def MARKER_def startswith_def All_less_Suc2)
  have n: "(Some (ascii ''Folder''), None) \<in> set demo_rows" "\<not> has_marker (Some (ascii ''Folder''), None)"
    by (simp_all add: demo_rows_def has_marker_def)
  from extractor_yields_package [OF r i x f first] n show ?thesis
    by blast
qed

text \<open>
  Only the leftmost match counts: a second \<open>component=\<close> of a descriptor is not
  extracted, and a first one that is followed by \<open>/\<close> at once is passed over.
\<close>

lemma later_marker_not_extracted:
  "extract_rows [(n, Some (ascii ''component=a/component=b/''))] [] = [\<lparr>name = n, package = ascii ''a''\<rparr>]"
  "extract_rows [(n, Some (ascii ''component=/component=abc/''))] [] = [\<lparr>name = n, package = ascii ''abc''\<rparr>]"
  by (simp_all add: ascii_def match_at_def startswith_def MARKER_def SLASH_def group_lengths_def)

section \<open>UTF-8: decoding what was encoded\<close>

lemma utf8_encode_char_bytes:
  "utf8_encode_char c = Some bs \<Longrightarrow> \<forall>b\<in>set bs. b < 256"
  by (auto simp: utf8_encode_char_def split: if_splits)

lemma utf8_decode_encode_char:
  assumes "utf8_encode_char c = Some bs"
  shows "utf8_decode (bs @ rest) = map_option ((#) c) (utf8_decode rest)"
proof -
  consider (one) "c < 0x80" | (two) "0x80 \<le> c" "c < 0x800"
    | (three) "0x800 \<le> c" "c < 0x10000" "\<not> (0xD800 \<le> c \<and> c \<le> 0xDFFF)"
    | (four) "0x10000 \<le> c" "c \<le> 0x10FFFF"
    using assms by (auto simp: utf8_encode_char_def split: if_splits)
  then show ?thesis
  proof cases
    case one
    with assms show ?thesis
      by (auto simp: utf8_encode_char_def)
  next
    case two
    then have bs: "bs = [0xC0 + c div 64, 0x80 + c mod 64]"
      using assms by (auto simp: utf8_encode_char_def)
    have a: "c div 64 < 32" using two by simp
    have b: "c mod 64 < 64" by simp
    have r: "((0xC0 + c div 64) - 0xC0) * 64 + ((0x80 + c mod 64) - 0x80) = c"
      by simp
    show ?thesis
      unfolding bs using a b two r by (simp add: is_cont_def Let_def)
  next
    case three
    then have bs: "bs = [0xE0 + c div 4096, 0x80 + (c div 64) mod 64, 0x80 + c mod 64]"
      using assms by (auto simp: utf8_encode_char_def)
    have a: "c div 4096 < 16" using three by simp
    have r: "(((0xE0 + c div 4096) - 0xE0) * 64 + ((0x80 + (c div 64) mod 64) - 0x80)) * 64 +
             ((0x80 + c mod 64) - 0x80) = c"
    proof -
      have "c div 4096 = (c div 64) div 64" by (simp add: div_mult2_eq)
      then have "c div 4096 * 64 + (c div 64) mod 64 = c div 64" by simp
      then show ?thesis by simp
    qed
    show ?thesis
      unfolding bs using a three r by (simp add: is_cont_def Let_def)
  next
    case four
    then have bs: "bs = [0xF0 + c div 262144, 0x80 + (c div 4096) mod 64, 0x80 + (c div 64) mod 64,
              0x80 + c mod 64]"
      using assms by (auto simp: utf8_encode_char_def)
    have a: "c div 262144 < 8" using four by simp
    have r: "((((0xF0 + c div 262144) - 0xF0) * 64 + ((0x80 + (c div 4096) mod 64) - 0x80)) * 64 +
             ((0x80 + (c div 64) mod 64) - 0x80)) * 64 + ((0x80 + c mod 64) - 0x80) = c"
    proof -
      have 1: "c div 4096 = (c div 64) div 64" by (simp add: div_mult2_eq)
      have 2: "c div 262144 = (c div 4096) div 64" by (simp add: div_mult2_eq)
      have "c div 262144 * 64 + (c div 4096) mod 64 = c div 4096" unfolding 2 by simp
      moreover have "c div 4096 * 64 + (c div 64) mod 64 = c div 64" unfolding 1 by simp
      ultimately show ?thesis by simp
    qed
    show ?thesis
      unfolding bs using a four r by (simp add: is_cont_def Let_def)
  qed
qed

lemma utf8_decode_encode:
  "utf8_encode s = Some bs \<Longrightarrow> utf8_decode bs = Some s \<and> (\<forall>b\<in>set bs. b < 256)"
proof (induction s arbitrary: bs)
  case Nil
  then show ?case by simp
next
  case (Cons c s)
  from Cons.prems obtain b1 b2 where e: "utf8_encode_char c = Some b1" "utf8_encode s = Some b2"
    and bs: "bs = b1 @ b2"
    by (auto split: option.splits)
  from Cons.IH [OF e(2)] utf8_decode_encode_char [OF e(1), of b2] utf8_encode_char_bytes [OF e(1)]
  show ?case
    unfolding bs by auto
qed

lemma read_text_written:
  assumes "utf8_encode s = Some bs"
  shows "read_text (map of_nat bs) = Some (universal_newlines s)"
proof -
  from utf8_decode_encode [OF assms] have d: "utf8_decode bs = Some s" and b: "\<forall>b\<in>set bs. b < 256"
    by simp_all
  have "map unat (map of_nat bs :: byte list) = bs"
    using b by (induction bs) (simp_all add: unat_of_nat)
  then show ?thesis
    by (simp add: read_text_def d)
qed

section \<open>JSON: reading what was written\<close>

lemma hexval_hexdigit: "d < 16 \<Longrightarrow> hexval (hexdigit d) = Some d"
  by (auto simp: hexval_def hexdigit_def)

lemma scanstring_escape_char:
  "scanstring (escape_char c @ s) acc = scanstring s (acc @ [c])"
proof -
  consider (q) "c = QUOTE" | (b) "c = BACKSLASH" | (c8) "c = 0x08" | (cc) "c = 0x0C" | (ca) "c = 0x0A"
    | (cd) "c = 0x0D" | (c9) "c = 0x09"
    | (u) "c < 0x20" "c \<noteq> 0x08" "c \<noteq> 0x0C" "c \<noteq> 0x0A" "c \<noteq> 0x0D" "c \<noteq> 0x09"
    | (plain) "\<not> c < 0x20" "c \<noteq> QUOTE" "c \<noteq> BACKSLASH"
    by (auto simp: QUOTE_def BACKSLASH_def)
  then show ?thesis
  proof cases
    case u
    then have e: "escape_char c = [BACKSLASH, 0x75, 0x30, 0x30, hexdigit (c div 16), hexdigit (c mod 16)]"
      by (auto simp: escape_char_def QUOTE_def BACKSLASH_def)
    have z: "hexval 0x30 = Some 0"
      by (simp add: hexval_def)
    have d1: "hexval (hexdigit (c div 16)) = Some (c div 16)"
      using u(1) by (intro hexval_hexdigit) simp
    have d2: "hexval (hexdigit (c mod 16)) = Some (c mod 16)"
      by (intro hexval_hexdigit) simp
    have h: "hex4 (0x30 # 0x30 # hexdigit (c div 16) # hexdigit (c mod 16) # s) = Some c"
      by (simp add: hex4_def z d1 d2)
    show ?thesis
      unfolding e using h u(1) by (simp add: QUOTE_def BACKSLASH_def)
  qed (simp_all add: escape_char_def unescape_def QUOTE_def BACKSLASH_def)
qed

lemma scanstring_body:
  "scanstring (concat (map escape_char s) @ QUOTE # rest) acc = Some (acc @ s, rest)"
proof (induction s arbitrary: acc)
  case Nil
  then show ?case by simp
next
  case (Cons c s)
  have "scanstring (concat (map escape_char (c # s)) @ QUOTE # rest) acc =
        scanstring (escape_char c @ (concat (map escape_char s) @ QUOTE # rest)) acc"
    by simp
  also have "\<dots> = scanstring (concat (map escape_char s) @ QUOTE # rest) (acc @ [c])"
    by (rule scanstring_escape_char)
  also have "\<dots> = Some ((acc @ [c]) @ s, rest)"
    by (rule Cons.IH)
  finally show ?case by simp
qed

lemma scanstring_encoded:
  "encode_basestring s @ rest = QUOTE # t \<Longrightarrow> scanstring t [] = Some (s, rest)"
  using scanstring_body [of s rest "[]"] by (simp add: encode_basestring_def)

lemma skip_ws_newline_indent: "skip_ws (newline_indent n @ s) = skip_ws s"
  by (simp add: skip_ws_def newline_indent_def is_ws_def dropWhile_append)

lemma skip_ws_none: "\<not> is_ws c \<Longrightarrow> skip_ws (c # s) = c # s"
  by (simp add: skip_ws_def)

lemma scan_once_string:
  "scan_once (Suc f) (encode_basestring t @ rest) = Some (JStr t, rest)"
  by (simp add: encode_basestring_def scanstring_body)

lemma quote_facts: "\<not> is_ws QUOTE" "QUOTE \<noteq> 0x3A" "QUOTE \<noteq> 0x7D" "QUOTE \<noteq> 0x2C"
  by (simp_all add: is_ws_def QUOTE_def)

lemma scan_object_item_raw:
  "scan_object (Suc (Suc f))
     (QUOTE # concat (map escape_char k) @ QUOTE # 0x3A # 0x20 # QUOTE # concat (map escape_char t) @ QUOTE # rest) ps =
     (let s2 = skip_ws rest in
      if take 1 s2 = [0x7D] then Some (JObj (dict_of_pairs (ps @ [(k, JStr t)])), drop 1 s2)
      else if take 1 s2 = [0x2C] then scan_object (Suc f) (skip_ws (drop 1 s2)) (ps @ [(k, JStr t)])
      else None)"
proof -
  have w: "skip_ws (0x3A # 0x20 # QUOTE # concat (map escape_char t) @ QUOTE # rest) =
             0x3A # 0x20 # QUOTE # concat (map escape_char t) @ QUOTE # rest"
    "skip_ws (0x20 # QUOTE # concat (map escape_char t) @ QUOTE # rest) =
             QUOTE # concat (map escape_char t) @ QUOTE # rest"
    by (simp_all add: skip_ws_def quote_facts) (simp_all add: is_ws_def)
  show ?thesis
    by (subst scan_object.simps) (simp add: scanstring_body w Let_def del: scan_object.simps)
qed

lemma scan_object_item:
  "scan_object (Suc (Suc f)) (encode_basestring k @ ascii '': '' @ encode_basestring t @ rest) ps =
     (let s2 = skip_ws rest in
      if take 1 s2 = [0x7D] then Some (JObj (dict_of_pairs (ps @ [(k, JStr t)])), drop 1 s2)
      else if take 1 s2 = [0x2C] then scan_object (Suc f) (skip_ws (drop 1 s2)) (ps @ [(k, JStr t)])
      else None)"
  using scan_object_item_raw [of f k t rest ps] by (simp add: encode_basestring_def ascii_def)

lemma dict_of_pairs_distinct:
  "distinct (map fst ps) \<Longrightarrow> dict_of_pairs ps = ps"
proof -
  have "distinct (map fst (acc @ ps)) \<Longrightarrow> foldl (\<lambda>d (k, v). dict_set d k v) acc ps = acc @ ps" for acc
  proof (induction ps arbitrary: acc)
    case Nil
    then show ?case by simp
  next
    case (Cons p ps)
    obtain k v where p: "p = (k, v)" by (cases p)
    from Cons.prems p have "k \<notin> set (map fst acc)" by auto
    from dict_set_new [OF this] have d: "dict_set acc k v = acc @ [(k, v)]" .
    from Cons.prems p have "distinct (map fst ((acc @ [(k, v)]) @ ps))" by simp
    from Cons.IH [OF this] show ?case by (simp add: p d)
  qed
  from this [of "[]"] show "distinct (map fst ps) \<Longrightarrow> dict_of_pairs ps = ps"
    by (simp add: dict_of_pairs_def)
qed

lemma scan_object_item_text:
  "scan_object (Suc (Suc f)) (item_text kt @ rest) ps =
     (let s2 = skip_ws rest in
      if take 1 s2 = [0x7D] then Some (JObj (dict_of_pairs (ps @ [(fst kt, JStr (snd kt))])), drop 1 s2)
      else if take 1 s2 = [0x2C] then
        scan_object (Suc f) (skip_ws (drop 1 s2)) (ps @ [(fst kt, JStr (snd kt))])
      else None)"
  using scan_object_item [of f "fst kt" "snd kt" rest ps] by (simp add: item_text_def)

lemma scan_object_members:
  assumes "d \<noteq> []" and "length d < f"
  shows "scan_object f (join (0x2C # newline_indent (Suc 0)) (map item_text d) @ newline_indent 0 @ 0x7D # rest) ps =
           Some (JObj (dict_of_pairs (ps @ map (\<lambda>kt. (fst kt, JStr (snd kt))) d)), rest)"
  using assms
proof (induction d arbitrary: f ps)
  case Nil
  then show ?case by simp
next
  case (Cons kt d)
  from Cons.prems obtain f' where f: "f = Suc (Suc f')" and l: "length d < Suc f'"
    by (cases f; cases "f - 1") auto
  show ?case
  proof (cases d)
    case Nil
    have w: "skip_ws (newline_indent 0 @ 0x7D # rest) = 0x7D # rest"
      unfolding skip_ws_newline_indent by (simp add: skip_ws_def is_ws_def)
    have "scan_object f (item_text kt @ newline_indent 0 @ 0x7D # rest) ps =
          Some (JObj (dict_of_pairs (ps @ [(fst kt, JStr (snd kt))])), rest)"
      unfolding f scan_object_item_text w by (simp add: Let_def)
    with Nil show ?thesis by simp
  next
    case (Cons kt' d')
    let ?tail = "join (0x2C # newline_indent (Suc 0)) (map item_text d) @ newline_indent 0 @ 0x7D # rest"
    have j: "join (0x2C # newline_indent (Suc 0)) (map item_text (kt # d)) @ newline_indent 0 @ 0x7D # rest =
             item_text kt @ 0x2C # newline_indent (Suc 0) @ ?tail"
      using Cons by simp
    have w: "skip_ws (0x2C # newline_indent (Suc 0) @ ?tail) = 0x2C # newline_indent (Suc 0) @ ?tail"
      by (simp add: skip_ws_def is_ws_def)
    have w2: "skip_ws (newline_indent (Suc 0) @ ?tail) = ?tail"
      unfolding skip_ws_newline_indent using Cons
      by (cases d') (simp_all add: skip_ws_def is_ws_def item_text_def encode_basestring_def QUOTE_def)
    have "d \<noteq> []" using Cons by simp
    note ih = Cons.IH [OF this l, of "ps @ [(fst kt, JStr (snd kt))]"]
    have "scan_object f (item_text kt @ 0x2C # newline_indent (Suc 0) @ ?tail) ps =
          scan_object (Suc f') ?tail (ps @ [(fst kt, JStr (snd kt))])"
      unfolding f scan_object_item_text w
      by (simp add: Let_def w2 del: scan_object.simps)
    with ih show ?thesis
      unfolding j by simp
  qed
qed

lemma json_dumps_tag_cache:
  "d \<noteq> [] \<Longrightarrow>
   json_dumps (tag_cache d) =
     0x7B # newline_indent (Suc 0) @ join (0x2C # newline_indent (Suc 0)) (map item_text d) @
     newline_indent 0 @ [0x7D]"
  by (simp add: json_dumps_def tag_cache_def ascii_def comp_def item_text_def [abs_def])

lemma length_join: "length xs \<le> length (join sep (map item_text xs))"
proof (induction xs rule: induct_list012)
  case 1
  then show ?case by simp
next
  case (2 x)
  then show ?case by (simp add: item_text_def encode_basestring_def)
next
  case (3 x y zs)
  have "1 \<le> length (item_text x)"
    by (simp add: item_text_def encode_basestring_def)
  with 3 show ?case by simp
qed

lemma json_loads_dumps:
  assumes "distinct (map fst d)"
  shows "json_loads (json_dumps (tag_cache d)) = Some (tag_cache d)"
proof (cases d)
  case Nil
  then show ?thesis
    by (simp add: json_dumps_def tag_cache_def json_loads_def ascii_def skip_ws_def is_ws_def
        QUOTE_def)
next
  case (Cons kt d')
  then have ne: "d \<noteq> []" by simp
  define m where "m = join (0x2C # newline_indent (Suc 0)) (map item_text d)"
  define body where "body = m @ newline_indent 0 @ [0x7D]"
  define s where "s = 0x7B # newline_indent (Suc 0) @ body"
  have js: "json_dumps (tag_cache d) = s"
    unfolding json_dumps_tag_cache [OF ne] s_def body_def m_def ..
  have "m = QUOTE # tl m"
    unfolding m_def using Cons by (cases d') (simp_all add: item_text_def encode_basestring_def)
  then obtain m' where m: "m = QUOTE # m'" ..
  have w: "skip_ws (newline_indent (Suc 0) @ body) = body"
    unfolding skip_ws_newline_indent body_def m by (simp add: skip_ws_def quote_facts)
  have t: "take (Suc 0) body \<noteq> [0x7D]"
    unfolding body_def m by (simp add: quote_facts)
  have "length d \<le> length m"
    unfolding m_def by (rule length_join)
  then have l: "length d < length s"
    by (simp add: s_def body_def)
  have dp: "dict_of_pairs (map (\<lambda>kt. (fst kt, JStr (snd kt))) d) = map (\<lambda>kt. (fst kt, JStr (snd kt))) d"
    using assms by (intro dict_of_pairs_distinct) (simp add: comp_def)
  have so: "scan_object (length s) body [] = Some (tag_cache d, [])"
    using scan_object_members [OF ne l, of "[]" "[]"] by (simp add: dp tag_cache_def body_def m_def)
  have "scan_once (Suc n) s = Some (tag_cache d, [])" if "scan_object n body [] = Some (tag_cache d, [])" for n
    unfolding s_def using that by (simp add: w t QUOTE_def Let_def del: scan_object.simps)
  from this [OF so] have sc: "scan_once (Suc (length s)) s = Some (tag_cache d, [])" .
  have hd: "take (Suc 0) s \<noteq> [0xFEFF]" "skip_ws s = s"
    by (simp_all add: s_def skip_ws_def is_ws_def)
  have e: "skip_ws [] = []"
    by (simp add: skip_ws_def)
  show ?thesis
    unfolding js by (simp add: json_loads_def hd sc e del: scan_once.simps)
qed

lemma escape_char_no_cr: "0x0D \<notin> set (escape_char c)"
  by (auto simp: escape_char_def hexdigit_def QUOTE_def BACKSLASH_def)

lemma encode_basestring_no_cr: "0x0D \<notin> set (encode_basestring s)"
  by (induction s) (auto simp: encode_basestring_def escape_char_no_cr QUOTE_def)

lemma join_no_cr:
  "0x0D \<notin> set sep \<Longrightarrow> \<forall>x\<in>set xs. 0x0D \<notin> set x \<Longrightarrow> 0x0D \<notin> set (join sep xs)"
  by (induction sep xs rule: join.induct) auto

lemma json_dumps_no_cr: "0x0D \<notin> set (json_dumps (tag_cache d))"
proof (cases d)
  case Nil
  then show ?thesis
    by (simp add: json_dumps_def tag_cache_def ascii_def)
next
  case (Cons kt d')
  then have ne: "d \<noteq> []" by simp
  have i: "\<forall>x\<in>set (map item_text d). 0x0D \<notin> set x"
    by (auto simp: item_text_def encode_basestring_no_cr ascii_def)
  have "0x0D \<notin> set (join (0x2C # newline_indent (Suc 0)) (map item_text d))"
    by (rule join_no_cr [OF _ i]) (simp add: newline_indent_def)
  then show ?thesis
    unfolding json_dumps_tag_cache [OF ne] by (simp add: newline_indent_def)
qed

lemma universal_newlines_id: "0x0D \<notin> set s \<Longrightarrow> universal_newlines s = s"
  by (induction s rule: universal_newlines.induct) auto

lemma json_dumps_nonempty: "json_dumps (tag_cache d) \<noteq> []"
  by (cases d) (simp_all add: json_dumps_def tag_cache_def ascii_def)

section \<open>The cache file: reading what was written\<close>

lemma save_cache_reported:
  assumes "save_cache env c st = (r, st')" and "last (trace st') = Log L_cache_saved"
  shows "\<exists>bs. utf8_encode (json_dumps c) = Some bs \<and> cache_file st' = FileBytes (map of_nat bs)"
  using assms
  by (auto simp: save_cache_def Let_def split: write_outcome.splits option.splits)

lemma load_cache_written:
  assumes dk: "distinct (map fst d)"
    and e: "utf8_encode (json_dumps (tag_cache d)) = Some bs"
    and f: "cache_file st = FileBytes (map of_nat bs)"
  shows "load_cache st = (Inr (tag_cache d), st)"
proof -
  have "read_text (map of_nat bs) = Some (json_dumps (tag_cache d))"
    using read_text_written [OF e] universal_newlines_id [OF json_dumps_no_cr] by simp
  then show ?thesis
    using f json_dumps_nonempty [of d] json_loads_dumps [OF dk] by (simp add: load_cache_def)
qed

lemma tag_cache_dict_set:
  "tag_cache (dict_set d k t) = JObj (dict_set (map (\<lambda>kt. (fst kt, JStr (snd kt))) d) k (JStr t))"
  unfolding tag_cache_def by (induction d) auto

lemma distinct_dict_set: "distinct (map fst d) \<Longrightarrow> distinct (map fst (dict_set d k v))"
  by (simp add: map_fst_dict_set)

lemma tag_cache_lookup: "py_getitem (tag_cache (dict_set d k t)) k = Inr (JStr t)"
  by (simp add: tag_cache_dict_set map_of_dict_set)

text \<open>
  C7. Let \<open>d\<close> be a mapping from package identifiers to tags (a \<open>dict\<close>: its keys are
  distinct). If \<open>save_cache\<close> reports that it saved the mapping, \<open>load_cache\<close> then
  returns the same mapping, with the keys in the same order, and prints no warning.
  Storing a tag under a package gives a mapping in which the package has that tag, in
  memory and, once saved, in the mapping read back from the file.
\<close>

theorem cache_round_trip:
  assumes dk: "distinct (map fst d)"
  shows "(save_cache env (tag_cache d) st = (r, st') \<and> last (trace st') = Log L_cache_saved \<longrightarrow>
            load_cache st' = (Inr (tag_cache d), st')) \<and>
         py_setitem (tag_cache d) k (JStr t) = Inr (tag_cache (dict_set d k t)) \<and>
         py_getitem (tag_cache (dict_set d k t)) k = Inr (JStr t) \<and>
         (save_cache env (tag_cache (dict_set d k t)) st = (r, st') \<and>
          last (trace st') = Log L_cache_saved \<longrightarrow>
            (\<exists>c. load_cache st' = (Inr c, st') \<and> py_getitem c k = Inr (JStr t)))"
proof -
  have rt: "load_cache st' = (Inr (tag_cache d'), st')"
    if "distinct (map fst d')" and "save_cache env (tag_cache d') st = (r, st')"
      and "last (trace st') = Log L_cache_saved" for d'
  proof -
    from save_cache_reported [OF that(2,3)] obtain bs where
      "utf8_encode (json_dumps (tag_cache d')) = Some bs" "cache_file st' = FileBytes (map of_nat bs)"
      by blast
    then show ?thesis
      by (rule load_cache_written [OF that(1)])
  qed
  have 1: "save_cache env (tag_cache d) st = (r, st') \<and> last (trace st') = Log L_cache_saved \<longrightarrow>
            load_cache st' = (Inr (tag_cache d), st')"
    using rt [OF dk] by simp
  have 2: "py_setitem (tag_cache d) k (JStr t) = Inr (tag_cache (dict_set d k t))"
    by (simp add: tag_cache_dict_set) (simp add: tag_cache_def)
  have 3: "py_getitem (tag_cache (dict_set d k t)) k = Inr (JStr t)"
    by (rule tag_cache_lookup)
  have 4: "save_cache env (tag_cache (dict_set d k t)) st = (r, st') \<and>
          last (trace st') = Log L_cache_saved \<longrightarrow>
            (\<exists>c. load_cache st' = (Inr c, st') \<and> py_getitem c k = Inr (JStr t))"
    using rt [OF distinct_dict_set [OF dk]] 3 by blast
  from 1 2 3 4 show ?thesis by simp
qed

theorem cache_round_trip_witness:
  "load_cache (snd (save_cache demo_env (tag_cache [(ascii ''a.b'', SENTINEL)]) demo_start)) =
     (Inr (tag_cache [(ascii ''a.b'', SENTINEL)]),
      snd (save_cache demo_env (tag_cache [(ascii ''a.b'', SENTINEL)]) demo_start)) \<and>
   py_setitem (tag_cache []) (ascii ''a.b'') (JStr SENTINEL) = Inr (tag_cache [(ascii ''a.b'', SENTINEL)]) \<and>
   py_getitem (tag_cache [(ascii ''a.b'', SENTINEL)]) (ascii ''a.b'') = Inr (JStr SENTINEL)"
proof -
  define d where "d = [(ascii ''a.b'', SENTINEL)]"
  have dk: "distinct (map fst d)" and dn: "distinct (map fst ([] :: (pystr \<times> pystr) list))"
    by (simp_all add: d_def)
  obtain r st' where s: "save_cache demo_env (tag_cache d) demo_start = (r, st')"
    by (cases "save_cache demo_env (tag_cache d) demo_start")
  have "last (trace (snd (save_cache demo_env (tag_cache d) demo_start))) = Log L_cache_saved"
    by (simp add: eval_defs d_def tag_cache_def demo_start_def)
  then have ok: "last (trace st') = Log L_cache_saved"
    using s by simp
  from cache_round_trip [OF dk, of demo_env demo_start r st'] s ok
  have 1: "load_cache st' = (Inr (tag_cache d), st')"
    by simp
  from cache_round_trip [OF dn, of demo_env demo_start r st' "ascii ''a.b''" SENTINEL]
  have 2: "py_setitem (tag_cache []) (ascii ''a.b'') (JStr SENTINEL) = Inr (tag_cache (dict_set [] (ascii ''a.b'') SENTINEL))"
    and 3: "py_getitem (tag_cache (dict_set [] (ascii ''a.b'') SENTINEL)) (ascii ''a.b'') = Inr (JStr SENTINEL)"
    by simp_all
  from 1 2 3 s show ?thesis
    by (simp add: d_def)
qed

section \<open>Writing through on a cache miss\<close>

lemma utf8_encode_scalars: "list_all is_scalar s \<Longrightarrow> \<exists>bs. utf8_encode s = Some bs"
  by (induction s) (auto simp: utf8_encode_char_def is_scalar_def)

lemma hexdigit_scalar: "d < 16 \<Longrightarrow> is_scalar (hexdigit d)"
  by (simp add: hexdigit_def is_scalar_def)

lemma escape_char_scalar: "is_scalar c \<Longrightarrow> list_all is_scalar (escape_char c)"
proof (cases "c < 0x20")
  case True
  then have "c div 16 < 16" and "c mod 16 < 16"
    by simp_all
  then have "is_scalar (hexdigit (c div 16))" and "is_scalar (hexdigit (c mod 16))"
    by (simp_all add: hexdigit_scalar)
  with True show ?thesis
    by (simp add: escape_char_def QUOTE_def BACKSLASH_def is_scalar_def)
next
  case False
  assume "is_scalar c"
  with False show ?thesis
    by (simp add: escape_char_def QUOTE_def BACKSLASH_def is_scalar_def)
qed

lemma encode_basestring_scalar:
  "list_all is_scalar s \<Longrightarrow> list_all is_scalar (encode_basestring s)"
proof -
  assume "list_all is_scalar s"
  then have "list_all is_scalar (concat (map escape_char s))"
    by (induction s) (simp_all add: escape_char_scalar)
  then show ?thesis
    by (simp add: encode_basestring_def QUOTE_def is_scalar_def)
qed

lemma item_text_scalar:
  "list_all is_scalar (fst kt @ snd kt) \<Longrightarrow> list_all is_scalar (item_text kt)"
  by (simp add: item_text_def encode_basestring_scalar ascii_def is_scalar_def)

lemma join_scalar:
  "list_all is_scalar sep \<Longrightarrow> list_all (list_all is_scalar) xs \<Longrightarrow> list_all is_scalar (join sep xs)"
  by (induction sep xs rule: join.induct) simp_all

lemma json_dumps_scalar:
  assumes "list_all is_scalar (concat (map (\<lambda>kt. fst kt @ snd kt) d))"
  shows "list_all is_scalar (json_dumps (tag_cache d))"
proof (cases d)
  case Nil
  then show ?thesis
    by (simp add: json_dumps_def tag_cache_def ascii_def is_scalar_def)
next
  case (Cons kt d')
  then have ne: "d \<noteq> []"
    by simp
  from assms have "list_all (list_all is_scalar) (map item_text d)"
    by (induction d) (simp_all add: item_text_scalar)
  then have "list_all is_scalar (join (0x2C # newline_indent (Suc 0)) (map item_text d))"
    by (intro join_scalar) (simp_all add: newline_indent_def is_scalar_def list_all_iff)
  then show ?thesis
    unfolding json_dumps_tag_cache [OF ne]
    by (simp add: newline_indent_def is_scalar_def list_all_iff)
qed

lemma after_tags_string: "fst (after_tags env a (JStr t) st) = None"
  by (simp add: after_tags_def get_embedding_def Let_def split: emb_outcome.splits)

text \<open>
  C8. On a cache miss (the cache is a \<open>dict\<close> without the package) the tag \<open>t\<close> the
  classifier returned is stored under the package, and \<open>save_cache\<close> is called with the
  whole new mapping inside the same loop step. When the write succeeds, the step ends
  without an exception, the file holds the UTF-8 text of the mapping, and the loop goes
  on to the next application from that state. For a mapping from package identifiers to
  tags whose text UTF-8 can encode, \<open>load_cache\<close> then reads the whole new mapping back
  from the file. When opening or writing the file raises \<open>IOError\<close>, the error is logged,
  no exception leaves the step, the step goes on from line 256 with the tag, the mapping
  in memory holds the new entry, and the loop goes on to the next application.
\<close>

theorem cache_miss_writes_through:
  assumes c: "app_tags_cache st = JObj kvs" and k: "package a \<notin> set (map fst kvs)"
    and g: "get_app_description env (name a) (package a) (emit (Log (L_app (name a) (package a))) st) = (t, st2)"
  shows "app_tags_cache (snd (process_app env a st)) = JObj (kvs @ [(package a, JStr t)]) \<and>
         Call_write (JObj (kvs @ [(package a, JStr t)])) \<in> set (new_events st (snd (process_app env a st))) \<and>
         (\<forall>bs. cache_write env (length (filter is_write (trace st))) = WriteOk \<and>
               utf8_encode (json_dumps (JObj (kvs @ [(package a, JStr t)]))) = Some bs \<longrightarrow>
               fst (process_app env a st) = None \<and>
               cache_file (snd (process_app env a st)) = FileBytes (map of_nat bs) \<and>
               (\<forall>rest. process_apps env (a # rest) st = process_apps env rest (snd (process_app env a st)))) \<and>
         (\<forall>d. JObj kvs = tag_cache d \<and> distinct (map fst d) \<and>
              list_all is_scalar (concat (map (\<lambda>kt. fst kt @ snd kt) (d @ [(package a, t)]))) \<and>
              cache_write env (length (filter is_write (trace st))) = WriteOk \<longrightarrow>
              fst (process_app env a st) = None \<and>
              load_cache (snd (process_app env a st)) =
                (Inr (JObj (kvs @ [(package a, JStr t)])), snd (process_app env a st))) \<and>
         (cache_write env (length (filter is_write (trace st))) \<noteq> WriteOk \<longrightarrow>
            fst (process_app env a st) = None \<and>
            (\<exists>st3. process_app env a st = after_tags env a (JStr t) st3 \<and>
                   app_tags_cache st3 = JObj (kvs @ [(package a, JStr t)]) \<and>
                   new_events st2 st3 =
                     [Call_write (JObj (kvs @ [(package a, JStr t)])), Log L_cache_write_error]) \<and>
            (\<forall>rest. process_apps env (a # rest) st = process_apps env rest (snd (process_app env a st))))"
proof -
  define c' where "c' = JObj (kvs @ [(package a, JStr t)])"
  define st2' where "st2' = st2\<lparr>app_tags_cache := c'\<rparr>"
  define st1 where "st1 = emit (Log (L_app (name a) (package a))) st"
  obtain r3 st3 where s: "save_cache env c' st2' = (r3, st3)"
    by (cases "save_cache env c' st2'")
  note g1 = get_app_description_effect [OF g]
  note s1 = save_cache_effect [OF s]
  have p: "process_app env a st =
           (case r3 of Some e \<Rightarrow> (Some e, st3) | None \<Rightarrow> after_tags env a (JStr t) st3)"
    using process_app_miss [OF c k g s [unfolded c'_def st2'_def]] .
  obtain r st' where a: "after_tags env a (JStr t) st3 = (r, st')"
    by (cases "after_tags env a (JStr t) st3")
  have rn: "r = None"
    using after_tags_string [of env a t st3] a by simp
  note e = after_tags_effect [OF a]
  have sn: "snd (process_app env a st) = (case r3 of Some e \<Rightarrow> st3 | None \<Rightarrow> st')"
    unfolding p using a by (cases r3) simp_all
  have fs: "fst (process_app env a st) = r3"
    unfolding p using a rn by (cases r3) simp_all
  have nx: "\<forall>rest. process_apps env (a # rest) st = process_apps env rest (snd (process_app env a st))"
    if "r3 = None"
    using that fs by (cases "process_app env a st") simp
  have w: "length (filter is_write (trace st2')) = length (filter is_write (trace st))"
    using g1(5) no_calls_of_kind(3) [OF g1(6)] by (simp add: st2'_def)
  have t1: "trace st1 = trace st @ new_events st st1"
    by (simp add: st1_def)
  have t2: "trace st2' = trace st1 @ new_events st1 st2'"
    using g1(5) by (simp add: st2'_def st1_def)
  note n2 = new_events_append [OF t1 t2]
  note n3 = new_events_append [OF n2(1) s1(4)]
  note n4 = new_events_append [OF n3(1) e(3)]
  have cw: "Call_write c' \<in> set (new_events st2' st3)"
    using s by (auto simp: save_cache_def Let_def new_events_def split: write_outcome.splits option.splits)
  have 1: "app_tags_cache (snd (process_app env a st)) = c'"
    unfolding sn using s1(1) e(2) by (cases r3) (simp_all add: st2'_def)
  have 2: "Call_write c' \<in> set (new_events st (snd (process_app env a st)))"
    unfolding sn using cw by (cases r3) (simp_all add: n3(2) n4(2))
  have ok: "fst (process_app env a st) = None \<and>
            cache_file (snd (process_app env a st)) = FileBytes (map of_nat bs) \<and>
            (\<forall>rest. process_apps env (a # rest) st = process_apps env rest (snd (process_app env a st)))"
    if h1: "cache_write env (length (filter is_write (trace st))) = WriteOk"
      and h2: "utf8_encode (json_dumps c') = Some bs" for bs
  proof -
    from h1 have "cache_write env (length (filter is_write (trace st2'))) = WriteOk"
      using w by simp
    from save_cache_written [OF this h2] s
    have r3: "r3 = None" and "cache_file st3 = FileBytes (map of_nat bs)"
      by simp_all
    then have "cache_file (snd (process_app env a st)) = FileBytes (map of_nat bs)"
      unfolding sn using e(1) by simp
    with r3 fs nx [OF r3] show ?thesis
      by simp
  qed
  have 3: "\<forall>bs. cache_write env (length (filter is_write (trace st))) = WriteOk \<and>
               utf8_encode (json_dumps c') = Some bs \<longrightarrow>
               fst (process_app env a st) = None \<and>
               cache_file (snd (process_app env a st)) = FileBytes (map of_nat bs) \<and>
               (\<forall>rest. process_apps env (a # rest) st = process_apps env rest (snd (process_app env a st)))"
    using ok by blast
  have 4: "\<forall>d. JObj kvs = tag_cache d \<and> distinct (map fst d) \<and>
              list_all is_scalar (concat (map (\<lambda>kt. fst kt @ snd kt) (d @ [(package a, t)]))) \<and>
              cache_write env (length (filter is_write (trace st))) = WriteOk \<longrightarrow>
              fst (process_app env a st) = None \<and>
              load_cache (snd (process_app env a st)) = (Inr c', snd (process_app env a st))"
  proof (intro allI impI)
    fix d
    assume h: "JObj kvs = tag_cache d \<and> distinct (map fst d) \<and>
              list_all is_scalar (concat (map (\<lambda>kt. fst kt @ snd kt) (d @ [(package a, t)]))) \<and>
              cache_write env (length (filter is_write (trace st))) = WriteOk"
    define d' where "d' = d @ [(package a, t)]"
    from h have kv: "kvs = map (\<lambda>kt. (fst kt, JStr (snd kt))) d"
      by (simp add: tag_cache_def)
    then have cd: "c' = tag_cache d'"
      by (simp add: c'_def d'_def tag_cache_def)
    from kv have "map fst kvs = map fst d"
      by (simp add: comp_def)
    with k h have dk: "distinct (map fst d')"
      by (simp add: d'_def)
    from h have "list_all is_scalar (concat (map (\<lambda>kt. fst kt @ snd kt) d'))"
      by (simp add: d'_def)
    from utf8_encode_scalars [OF json_dumps_scalar [OF this]]
    obtain bs where bs: "utf8_encode (json_dumps (tag_cache d')) = Some bs" ..
    from h have wo: "cache_write env (length (filter is_write (trace st))) = WriteOk"
      by simp
    from ok [OF wo bs [folded cd]]
    have f: "fst (process_app env a st) = None"
      and cf: "cache_file (snd (process_app env a st)) = FileBytes (map of_nat bs)"
      by simp_all
    from load_cache_written [OF dk bs cf] f
    show "fst (process_app env a st) = None \<and>
          load_cache (snd (process_app env a st)) = (Inr c', snd (process_app env a st))"
      unfolding cd by simp
  qed
  have 5: "cache_write env (length (filter is_write (trace st))) \<noteq> WriteOk \<longrightarrow>
            fst (process_app env a st) = None \<and>
            (\<exists>st3. process_app env a st = after_tags env a (JStr t) st3 \<and>
                   app_tags_cache st3 = c' \<and>
                   new_events st2 st3 = [Call_write c', Log L_cache_write_error]) \<and>
            (\<forall>rest. process_apps env (a # rest) st = process_apps env rest (snd (process_app env a st)))"
  proof
    assume "cache_write env (length (filter is_write (trace st))) \<noteq> WriteOk"
    then have h: "cache_write env (length (filter is_write (trace st2'))) \<noteq> WriteOk"
      using w by simp
    from save_cache_io_error [OF h, of c'] s
    have r3: "r3 = None" and "app_tags_cache st3 = c'"
      and "new_events st2' st3 = [Call_write c', Log L_cache_write_error]"
      by (simp_all add: st2'_def)
    then have "process_app env a st = after_tags env a (JStr t) st3 \<and>
                   app_tags_cache st3 = c' \<and>
                   new_events st2 st3 = [Call_write c', Log L_cache_write_error]"
      unfolding p by (simp add: st2'_def)
    then have "\<exists>st3. process_app env a st = after_tags env a (JStr t) st3 \<and>
                   app_tags_cache st3 = c' \<and>
                   new_events st2 st3 = [Call_write c', Log L_cache_write_error]"
      by (rule exI)
    with r3 fs nx [OF r3]
    show "fst (process_app env a st) = None \<and>
            (\<exists>st3. process_app env a st = after_tags env a (JStr t) st3 \<and>
                   app_tags_cache st3 = c' \<and>
                   new_events st2 st3 = [Call_write c', Log L_cache_write_error]) \<and>
            (\<forall>rest. process_apps env (a # rest) st = process_apps env rest (snd (process_app env a st)))"
      by simp
  qed
  from 1 2 3 4 5 show ?thesis
    unfolding c'_def by simp
qed

theorem cache_miss_writes_through_witness:
  "fst (process_app writable_env app_cd cached_state) = None \<and>
   app_tags_cache (snd (process_app writable_env app_cd cached_state)) =
     JObj [(ascii ''a.b'', JStr SENTINEL), (ascii ''c.d'', JStr (ascii ''photo''))] \<and>
   cache_file (snd (process_app writable_env app_cd cached_state)) =
     FileBytes [0x7B, 0x0A, 0x20, 0x20, 0x20, 0x20, 0x22, 0x61, 0x2E, 0x62, 0x22, 0x3A, 0x20,
                0x22, 0xE4, 0xBF, 0xA1, 0xE6, 0x81, 0xAF, 0xE4, 0xB8, 0x8D, 0xE8, 0xB6, 0xB3, 0x22, 0x2C,
                0x0A, 0x20, 0x20, 0x20, 0x20, 0x22, 0x63, 0x2E, 0x64, 0x22, 0x3A, 0x20,
                0x22, 0x70, 0x68, 0x6F, 0x74, 0x6F, 0x22, 0x0A, 0x7D] \<and>
   load_cache (snd (process_app writable_env app_cd cached_state)) =
     (Inr (JObj [(ascii ''a.b'', JStr SENTINEL), (ascii ''c.d'', JStr (ascii ''photo''))]),
      snd (process_app writable_env app_cd cached_state)) \<and>
   fst (process_app readonly_env app_ab demo_start) = None \<and>
   app_tags_cache (snd (process_app readonly_env app_ab demo_start)) =
     JObj [(ascii ''a.b'', JStr (ascii ''photo''))] \<and>
   Call_write (JObj [(ascii ''a.b'', JStr (ascii ''photo''))]) \<in>
     set (new_events demo_start (snd (process_app readonly_env app_ab demo_start))) \<and>
   (\<exists>st3. process_app readonly_env app_ab demo_start =
            after_tags readonly_env app_ab (JStr (ascii ''photo'')) st3 \<and>
          app_tags_cache st3 = JObj [(ascii ''a.b'', JStr (ascii ''photo''))] \<and>
          last (trace st3) = Log L_cache_write_error)"
proof -
  define u2 where "u2 = emit (Call_generate_content (name app_cd) (package app_cd))
     (emit (Log (L_api_call (name app_cd))) (emit (Log (L_app (name app_cd) (package app_cd))) cached_state))"
  define kvs where "kvs = [(ascii ''a.b'', JStr SENTINEL)]"
  define bs :: "nat list" where "bs =
     [0x7B, 0x0A, 0x20, 0x20, 0x20, 0x20, 0x22, 0x61, 0x2E, 0x62, 0x22, 0x3A, 0x20,
      0x22, 0xE4, 0xBF, 0xA1, 0xE6, 0x81, 0xAF, 0xE4, 0xB8, 0x8D, 0xE8, 0xB6, 0xB3, 0x22, 0x2C,
      0x0A, 0x20, 0x20, 0x20, 0x20, 0x22, 0x63, 0x2E, 0x64, 0x22, 0x3A, 0x20,
      0x22, 0x70, 0x68, 0x6F, 0x74, 0x6F, 0x22, 0x0A, 0x7D]"
  have pc: "package app_cd = ascii ''c.d''"
    by (simp add: app_cd_def)
  have uc: "app_tags_cache cached_state = JObj kvs"
    by (simp add: cached_state_def kvs_def)
  have uk: "package app_cd \<notin> set (map fst kvs)"
    by (simp add: kvs_def app_cd_def ascii_def)
  have ug: "get_app_description writable_env (name app_cd) (package app_cd)
             (emit (Log (L_app (name app_cd) (package app_cd))) cached_state) = (ascii ''photo'', u2)"
    by (simp add: get_app_description_def writable_env_def demo_env_def strip_def py_isspace_def
        ascii_def u2_def)
  have uw: "cache_write writable_env (length (filter is_write (trace cached_state))) = WriteOk"
    by (simp add: writable_env_def demo_env_def)
  have ub: "utf8_encode (json_dumps (JObj (kvs @ [(package app_cd, JStr (ascii ''photo''))]))) = Some bs"
    unfolding pc kvs_def bs_def
    by (simp add: json_dumps_def encode_basestring_def escape_char_def newline_indent_def QUOTE_def
        BACKSLASH_def SENTINEL_def ascii_def utf8_encode_char_def replicate_4)
  have ud: "JObj kvs = tag_cache [(ascii ''a.b'', SENTINEL)]"
    and dd: "distinct (map fst [(ascii ''a.b'', SENTINEL)])"
    by (simp_all add: kvs_def tag_cache_def)
  have us: "list_all is_scalar (concat (map (\<lambda>kt. fst kt @ snd kt)
              ([(ascii ''a.b'', SENTINEL)] @ [(package app_cd, ascii ''photo'')])))"
    by (simp add: pc ascii_def SENTINEL_def is_scalar_def)
  note u = cache_miss_writes_through [OF uc uk ug]
  have u1: "app_tags_cache (snd (process_app writable_env app_cd cached_state)) =
              JObj (kvs @ [(package app_cd, JStr (ascii ''photo''))])"
    using u by (rule conjunct1)
  have u3: "fst (process_app writable_env app_cd cached_state) = None \<and>
            cache_file (snd (process_app writable_env app_cd cached_state)) = FileBytes (map of_nat bs)"
    using u uw ub by blast
  have u4: "load_cache (snd (process_app writable_env app_cd cached_state)) =
              (Inr (JObj (kvs @ [(package app_cd, JStr (ascii ''photo''))])),
               snd (process_app writable_env app_cd cached_state))"
    using u ud dd us uw by blast
  have success: "fst (process_app writable_env app_cd cached_state) = None \<and>
   app_tags_cache (snd (process_app writable_env app_cd cached_state)) =
     JObj [(ascii ''a.b'', JStr SENTINEL), (ascii ''c.d'', JStr (ascii ''photo''))] \<and>
   cache_file (snd (process_app writable_env app_cd cached_state)) =
     FileBytes [0x7B, 0x0A, 0x20, 0x20, 0x20, 0x20, 0x22, 0x61, 0x2E, 0x62, 0x22, 0x3A, 0x20,
                0x22, 0xE4, 0xBF, 0xA1, 0xE6, 0x81, 0xAF, 0xE4, 0xB8, 0x8D, 0xE8, 0xB6, 0xB3, 0x22, 0x2C,
                0x0A, 0x20, 0x20, 0x20, 0x20, 0x22, 0x63, 0x2E, 0x64, 0x22, 0x3A, 0x20,
                0x22, 0x70, 0x68, 0x6F, 0x74, 0x6F, 0x22, 0x0A, 0x7D] \<and>
   load_cache (snd (process_app writable_env app_cd cached_state)) =
     (Inr (JObj [(ascii ''a.b'', JStr SENTINEL), (ascii ''c.d'', JStr (ascii ''photo''))]),
      snd (process_app writable_env app_cd cached_state))"
    using u1 u3 u4 unfolding pc kvs_def bs_def by simp
  define st2 where "st2 = emit (Call_generate_content (name app_ab) (package app_ab))
     (emit (Log (L_api_call (name app_ab))) (emit (Log (L_app (name app_ab) (package app_ab))) demo_start))"
  have c: "app_tags_cache demo_start = JObj []" and k: "package app_ab \<notin> set (map fst [])"
    by (simp_all add: demo_start_def)
  have g: "get_app_description readonly_env (name app_ab) (package app_ab)
             (emit (Log (L_app (name app_ab) (package app_ab))) demo_start) = (ascii ''photo'', st2)"
    by (simp add: get_app_description_def readonly_env_def strip_def py_isspace_def ascii_def st2_def)
  have w: "cache_write readonly_env (length (filter is_write (trace demo_start))) \<noteq> WriteOk"
    by (simp add: readonly_env_def)
  from cache_miss_writes_through [OF c k g] w
  have 1: "app_tags_cache (snd (process_app readonly_env app_ab demo_start)) =
             JObj [(package app_ab, JStr (ascii ''photo''))]"
    and 2: "Call_write (JObj [(package app_ab, JStr (ascii ''photo''))]) \<in>
             set (new_events demo_start (snd (process_app readonly_env app_ab demo_start)))"
    and 0: "fst (process_app readonly_env app_ab demo_start) = None"
    and 3: "\<exists>st3. process_app readonly_env app_ab demo_start =
                  after_tags readonly_env app_ab (JStr (ascii ''photo'')) st3 \<and>
                app_tags_cache st3 = JObj [(package app_ab, JStr (ascii ''photo''))] \<and>
                new_events st2 st3 =
                  [Call_write (JObj [(package app_ab, JStr (ascii ''photo''))]), Log L_cache_write_error]"
    by simp_all
  from 3 obtain st3 where
    p: "process_app readonly_env app_ab demo_start = after_tags readonly_env app_ab (JStr (ascii ''photo'')) st3"
    and cc: "app_tags_cache st3 = JObj [(package app_ab, JStr (ascii ''photo''))]"
    and n: "new_events st2 st3 =
              [Call_write (JObj [(package app_ab, JStr (ascii ''photo''))]), Log L_cache_write_error]"
    by blast
  have "drop (length (trace st2)) (trace st3) \<noteq> []"
    using n by (simp add: new_events_def)
  then have "last (trace st3) = last (drop (length (trace st2)) (trace st3))"
    by (simp add: last_drop)
  then have l: "last (trace st3) = Log L_cache_write_error"
    using n by (simp add: new_events_def)
  have pk: "package app_ab = ascii ''a.b''"
    by (simp add: app_ab_def)
  from p cc l have "\<exists>st3. process_app readonly_env app_ab demo_start =
            after_tags readonly_env app_ab (JStr (ascii ''photo'')) st3 \<and>
          app_tags_cache st3 = JObj [(ascii ''a.b'', JStr (ascii ''photo''))] \<and>
          last (trace st3) = Log L_cache_write_error"
    unfolding pk by blast
  with 0 1 2 have failure: "fst (process_app readonly_env app_ab demo_start) = None \<and>
   app_tags_cache (snd (process_app readonly_env app_ab demo_start)) =
     JObj [(ascii ''a.b'', JStr (ascii ''photo''))] \<and>
   Call_write (JObj [(ascii ''a.b'', JStr (ascii ''photo''))]) \<in>
     set (new_events demo_start (snd (process_app readonly_env app_ab demo_start))) \<and>
   (\<exists>st3. process_app readonly_env app_ab demo_start =
            after_tags readonly_env app_ab (JStr (ascii ''photo'')) st3 \<and>
          app_tags_cache st3 = JObj [(ascii ''a.b'', JStr (ascii ''photo''))] \<and>
          last (trace st3) = Log L_cache_write_error)"
    unfolding pk by simp
  from success failure show ?thesis
    by (simp only: conj_assoc)
qed

end
